theory Spec2Isabelle
  imports Main
begin

section \<open>Memory model\<close>

text \<open>
  The container of \<^verbatim>\<open>single-linked-list.h\<close> is a pointer structure: nodes are allocated with
  \<^verbatim>\<open>new\<close>, released with \<^verbatim>\<open>delete\<close>, and several operations compare pointers
  (iterator equality, \<^verbatim>\<open>this != &rhs\<close>). The embedding therefore keeps an explicit store.

  \<^item> A \<^verbatim>\<open>Node*\<close> is null, the address of a heap node, or the address of the sentinel
    \<^verbatim>\<open>head_\<close> that lives inside a list object.
  \<^item> \<^verbatim>\<open>new\<close> hands out addresses from a counter and never fails; an address is not handed
    out twice. Allocation failure is outside this development.
  \<^item> \<^verbatim>\<open>size_t\<close> has 64 bits: a size is a \<open>nat\<close> below \<open>2 ^ 64\<close>, and \<^verbatim>\<open>++size_\<close>,
    \<^verbatim>\<open>--size_\<close> and the conversion of an argument to \<^verbatim>\<open>size_t\<close> wrap around.
  \<^item> \<^verbatim>\<open>assert\<close> is active: a failed assertion ends the call with \<open>AssertionFailed\<close>.
    Dereferencing a null or dangling pointer, reading past the end of an array and deleting
    something that is not a live heap node end it with \<open>UndefinedBehaviour\<close>.
  \<^item> The sentinel's \<^verbatim>\<open>value\<close> member is default-initialised (indeterminate for a scalar
    \<^verbatim>\<open>Type\<close>) and no list operation reads it; the sentinel is represented by its
    \<^verbatim>\<open>next_node\<close> link alone, and dereferencing an iterator to it is undefined behaviour.
\<close>

type_synonym addr = nat
type_synonym lid = nat

datatype error = AssertionFailed | UndefinedBehaviour

datatype ptr = Nullptr | NodeAt addr | HeadOf lid

text \<open>\<^verbatim>\<open>struct Node { Type value; Node *next_node; }\<close> (the field \<^verbatim>\<open>value\<close> is called \<open>val\<close>).\<close>

record 'a Node =
  val :: 'a
  next_node :: ptr

text \<open>
  \<^verbatim>\<open>Node head_; size_t size_ = 0;\<close> The two members are called \<open>head_next_node\<close>
  (for \<^verbatim>\<open>head_.next_node\<close>) and \<open>size_counter\<close>.
\<close>

record SingleLinkedList =
  head_next_node :: ptr
  size_counter :: nat

definition size_t_mod :: nat where
  "size_t_mod = 2 ^ 64"

text \<open>\<^verbatim>\<open>++n\<close>, \<^verbatim>\<open>--n\<close> and the conversion to \<^verbatim>\<open>size_t\<close>.\<close>

definition size_t_inc :: "nat \<Rightarrow> nat" where
  "size_t_inc n = (n + 1) mod size_t_mod"

definition size_t_dec :: "nat \<Rightarrow> nat" where
  "size_t_dec n = (n + (size_t_mod - 1)) mod size_t_mod"

definition to_size_t :: "nat \<Rightarrow> nat" where
  "to_size_t n = n mod size_t_mod"

record 'a world =
  nodes :: "addr \<rightharpoonup> 'a Node"
  next_free :: addr
  lists :: "lid \<rightharpoonup> SingleLinkedList"
  next_list :: lid

subsection \<open>Sequencing of calls that may fail\<close>

definition and_then :: "error + 'b \<Rightarrow> ('b \<Rightarrow> error + 'c) \<Rightarrow> error + 'c" where
  "and_then m f = (case m of Inl e \<Rightarrow> Inl e | Inr x \<Rightarrow> f x)"

text \<open>The same for code that contains a loop: \<open>None\<close> is a call that does not return.\<close>

definition lift :: "error + 'b \<Rightarrow> ('b \<Rightarrow> (error + 'c) option) \<Rightarrow> (error + 'c) option" where
  "lift m f = (case m of Inl e \<Rightarrow> Some (Inl e) | Inr x \<Rightarrow> f x)"

definition after :: "(error + 'b) option \<Rightarrow> ('b \<Rightarrow> (error + 'c) option) \<Rightarrow> (error + 'c) option" where
  "after m f = (case m of None \<Rightarrow> None | Some r \<Rightarrow> lift r f)"

subsection \<open>Reading and writing through pointers\<close>

definition get_list :: "'a world \<Rightarrow> lid \<Rightarrow> error + SingleLinkedList" where
  "get_list w l = (case lists w l of None \<Rightarrow> Inl UndefinedBehaviour | Some L \<Rightarrow> Inr L)"

definition put_list :: "'a world \<Rightarrow> lid \<Rightarrow> SingleLinkedList \<Rightarrow> 'a world" where
  "put_list w l L = w\<lparr>lists := (lists w)(l \<mapsto> L)\<rparr>"

text \<open>\<^verbatim>\<open>p->next_node\<close> as an rvalue.\<close>

definition get_next :: "'a world \<Rightarrow> ptr \<Rightarrow> error + ptr" where
  "get_next w p = (case p of
      Nullptr \<Rightarrow> Inl UndefinedBehaviour
    | NodeAt a \<Rightarrow> (case nodes w a of None \<Rightarrow> Inl UndefinedBehaviour | Some n \<Rightarrow> Inr (next_node n))
    | HeadOf l \<Rightarrow> (case lists w l of None \<Rightarrow> Inl UndefinedBehaviour | Some L \<Rightarrow> Inr (head_next_node L)))"

text \<open>\<^verbatim>\<open>p->next_node = q\<close>.\<close>

definition set_next :: "'a world \<Rightarrow> ptr \<Rightarrow> ptr \<Rightarrow> error + 'a world" where
  "set_next w p q = (case p of
      Nullptr \<Rightarrow> Inl UndefinedBehaviour
    | NodeAt a \<Rightarrow> (case nodes w a of None \<Rightarrow> Inl UndefinedBehaviour
        | Some n \<Rightarrow> Inr (w\<lparr>nodes := (nodes w)(a \<mapsto> n\<lparr>next_node := q\<rparr>)\<rparr>))
    | HeadOf l \<Rightarrow> (case lists w l of None \<Rightarrow> Inl UndefinedBehaviour
        | Some L \<Rightarrow> Inr (put_list w l (L\<lparr>head_next_node := q\<rparr>))))"

text \<open>\<^verbatim>\<open>new Node(value, next)\<close>.\<close>

definition new_Node :: "'a world \<Rightarrow> 'a \<Rightarrow> ptr \<Rightarrow> 'a world \<times> ptr" where
  "new_Node w v nx =
     (w\<lparr>nodes := (nodes w)(next_free w \<mapsto> \<lparr>val = v, next_node = nx\<rparr>),
        next_free := Suc (next_free w)\<rparr>, NodeAt (next_free w))"

text \<open>\<^verbatim>\<open>delete p\<close>; deleting the null pointer does nothing.\<close>

definition delete_Node :: "'a world \<Rightarrow> ptr \<Rightarrow> error + 'a world" where
  "delete_Node w p = (case p of
      Nullptr \<Rightarrow> Inr w
    | NodeAt a \<Rightarrow> (case nodes w a of None \<Rightarrow> Inl UndefinedBehaviour
        | Some n \<Rightarrow> Inr (w\<lparr>nodes := (nodes w)(a := None)\<rparr>))
    | HeadOf l \<Rightarrow> Inl UndefinedBehaviour)"

section \<open>BasicIterator\<close>

text \<open>
  An iterator holds one \<^verbatim>\<open>Node *node_\<close>; \<^verbatim>\<open>Iterator\<close> and \<^verbatim>\<open>ConstIterator\<close> differ
  only in the constness of the reference they give out. Both are the pointer itself here.
\<close>

type_synonym BasicIterator = ptr

definition iterator_eq :: "BasicIterator \<Rightarrow> BasicIterator \<Rightarrow> bool" where
  "iterator_eq lhs rhs = (rhs = lhs)"

definition iterator_neq :: "BasicIterator \<Rightarrow> BasicIterator \<Rightarrow> bool" where
  "iterator_neq lhs rhs = (\<not> iterator_eq rhs lhs)"

text \<open>\<^verbatim>\<open>operator++()\<close>: \<^verbatim>\<open>assert(node_ != nullptr); node_ = node_->next_node;\<close>\<close>

definition incr :: "'a world \<Rightarrow> BasicIterator \<Rightarrow> error + BasicIterator" where
  "incr w it = (if it = Nullptr then Inl AssertionFailed else get_next w it)"

text \<open>\<^verbatim>\<open>operator*()\<close>: \<^verbatim>\<open>assert(node_ != nullptr); return node_->value;\<close>\<close>

definition deref :: "'a world \<Rightarrow> BasicIterator \<Rightarrow> error + 'a" where
  "deref w it = (case it of
      Nullptr \<Rightarrow> Inl AssertionFailed
    | NodeAt a \<Rightarrow> (case nodes w a of None \<Rightarrow> Inl UndefinedBehaviour | Some n \<Rightarrow> Inr (val n))
    | HeadOf l \<Rightarrow> Inl UndefinedBehaviour)"

section \<open>SingleLinkedList\<close>

subsection \<open>Iterators of a list, size\<close>

definition list_begin :: "'a world \<Rightarrow> lid \<Rightarrow> error + BasicIterator" where
  "list_begin w this = and_then (get_list w this) (\<lambda>L. Inr (head_next_node L))"

definition list_end :: BasicIterator where
  "list_end = Nullptr"

definition before_begin :: "lid \<Rightarrow> BasicIterator" where
  "before_begin this = HeadOf this"

definition GetSize :: "'a world \<Rightarrow> lid \<Rightarrow> error + nat" where
  "GetSize w this = and_then (get_list w this) (\<lambda>L. Inr (size_counter L))"

definition IsEmpty :: "'a world \<Rightarrow> lid \<Rightarrow> error + bool" where
  "IsEmpty w this = and_then (GetSize w this) (\<lambda>n. Inr (n = 0))"

definition SetSize :: "'a world \<Rightarrow> lid \<Rightarrow> nat \<Rightarrow> error + 'a world" where
  "SetSize w this n =
     and_then (get_list w this) (\<lambda>L. Inr (put_list w this (L\<lparr>size_counter := to_size_t n\<rparr>)))"

text \<open>\<^verbatim>\<open>++size_\<close> and \<^verbatim>\<open>--size_\<close> on the list \<open>this\<close>.\<close>

definition inc_size :: "'a world \<Rightarrow> lid \<Rightarrow> error + 'a world" where
  "inc_size w this =
     and_then (get_list w this) (\<lambda>L.
       Inr (put_list w this (L\<lparr>size_counter := size_t_inc (size_counter L)\<rparr>)))"

definition dec_size :: "'a world \<Rightarrow> lid \<Rightarrow> error + 'a world" where
  "dec_size w this =
     and_then (get_list w this) (\<lambda>L.
       Inr (put_list w this (L\<lparr>size_counter := size_t_dec (size_counter L)\<rparr>)))"

subsection \<open>Construction\<close>

text \<open>\<^verbatim>\<open>SingleLinkedList() {}\<close>: a new list object with the default member initialisers.\<close>

definition SingleLinkedList_default :: "'a world \<Rightarrow> 'a world \<times> lid" where
  "SingleLinkedList_default w =
     (w\<lparr>lists := (lists w)(next_list w \<mapsto> \<lparr>head_next_node = Nullptr, size_counter = 0\<rparr>),
        next_list := Suc (next_list w)\<rparr>, next_list w)"

subsection \<open>Single-element operations\<close>

definition PushFront :: "'a world \<Rightarrow> lid \<Rightarrow> 'a \<Rightarrow> error + 'a world" where
  "PushFront w this v =
     and_then (get_next w (HeadOf this)) (\<lambda>first.
       case new_Node w v first of (w1, new_node) \<Rightarrow>
       and_then (set_next w1 (HeadOf this) new_node) (\<lambda>w2.
       inc_size w2 this))"

definition InitHead :: "'a world \<Rightarrow> lid \<Rightarrow> 'a \<Rightarrow> error + 'a world" where
  "InitHead w this v =
     (case new_Node w v Nullptr of (w1, new_node) \<Rightarrow>
       and_then (set_next w1 (HeadOf this) new_node) (\<lambda>w2.
       inc_size w2 this))"

definition InsertAfter :: "'a world \<Rightarrow> lid \<Rightarrow> BasicIterator \<Rightarrow> 'a \<Rightarrow> error + ('a world \<times> BasicIterator)" where
  "InsertAfter w this pos v =
     (if pos = Nullptr then Inl AssertionFailed
      else and_then (get_next w pos) (\<lambda>succ.
       case new_Node w v succ of (w1, new_node) \<Rightarrow>
       and_then (set_next w1 pos new_node) (\<lambda>w2.
       and_then (inc_size w2 this) (\<lambda>w3.
       and_then (get_next w3 pos) (\<lambda>r. Inr (w3, r))))))"

definition PopFront :: "'a world \<Rightarrow> lid \<Rightarrow> error + 'a world" where
  "PopFront w this =
     and_then (IsEmpty w this) (\<lambda>empty.
       if empty then Inr w
       else and_then (get_next w (HeadOf this)) (\<lambda>del_pointer.
            and_then (get_next w del_pointer) (\<lambda>succ.
            and_then (set_next w (HeadOf this) succ) (\<lambda>w1.
            and_then (delete_Node w1 del_pointer) (\<lambda>w2.
            dec_size w2 this)))))"

definition EraseAfter :: "'a world \<Rightarrow> lid \<Rightarrow> BasicIterator \<Rightarrow> error + ('a world \<times> BasicIterator)" where
  "EraseAfter w this pos =
     and_then (IsEmpty w this) (\<lambda>empty.
       if empty then Inr (w, Nullptr)
       else if pos = Nullptr then Inl AssertionFailed
       else and_then (get_next w pos) (\<lambda>delete_node.
            if delete_node = Nullptr then Inl AssertionFailed
            else if pos = Nullptr then Inr (w, Nullptr)
            else and_then (get_next w delete_node) (\<lambda>succ.
                 and_then (set_next w pos succ) (\<lambda>w1.
                 and_then (dec_size w1 this) (\<lambda>w2.
                 and_then (delete_Node w2 delete_node) (\<lambda>w3.
                 and_then (get_next w3 pos) (\<lambda>r. Inr (w3, r))))))))"

subsection \<open>swap\<close>

text \<open>
  \<^verbatim>\<open>std::swap(a, b)\<close> on two members: \<^verbatim>\<open>t = a; a = b; b = t;\<close>, each access through
  the object it belongs to, so that the two objects may be the same one.
\<close>

definition std_swap_size :: "'a world \<Rightarrow> lid \<Rightarrow> lid \<Rightarrow> error + 'a world" where
  "std_swap_size w a b =
     and_then (get_list w a) (\<lambda>A.
     and_then (get_list w b) (\<lambda>B.
       let t = size_counter A;
           w1 = put_list w a (A\<lparr>size_counter := size_counter B\<rparr>)
       in and_then (get_list w1 b) (\<lambda>B1. Inr (put_list w1 b (B1\<lparr>size_counter := t\<rparr>)))))"

definition std_swap_head :: "'a world \<Rightarrow> lid \<Rightarrow> lid \<Rightarrow> error + 'a world" where
  "std_swap_head w a b =
     and_then (get_list w a) (\<lambda>A.
     and_then (get_list w b) (\<lambda>B.
       let t = head_next_node A;
           w1 = put_list w a (A\<lparr>head_next_node := head_next_node B\<rparr>)
       in and_then (get_list w1 b) (\<lambda>B1. Inr (put_list w1 b (B1\<lparr>head_next_node := t\<rparr>)))))"

text \<open>
  \<^verbatim>\<open>if (other.IsEmpty()) return;
  std::swap(other.size_, this->size_);
  std::swap(other.head_.next_node, this->head_.next_node);\<close>
\<close>

definition swap :: "'a world \<Rightarrow> lid \<Rightarrow> lid \<Rightarrow> error + 'a world" where
  "swap w this other =
     and_then (IsEmpty w other) (\<lambda>empty.
       if empty then Inr w
       else and_then (std_swap_size w other this) (\<lambda>w1.
            std_swap_head w1 other this))"

text \<open>The free function \<^verbatim>\<open>swap(lhs, rhs)\<close> is \<^verbatim>\<open>lhs.swap(rhs)\<close>.\<close>

definition swap_free :: "'a world \<Rightarrow> lid \<Rightarrow> lid \<Rightarrow> error + 'a world" where
  "swap_free w lhs rhs = swap w lhs rhs"

subsection \<open>Clear and the destructor\<close>

text \<open>
  The loop of \<^verbatim>\<open>Clear\<close>:
  \<^verbatim>\<open>while (head_.next_node != nullptr) {
      auto node_to_delete = head_.next_node;
      head_.next_node = head_.next_node->next_node;
      delete node_to_delete; }\<close>
\<close>

partial_function (option) Clear_loop :: "'a world \<Rightarrow> lid \<Rightarrow> (error + 'a world) option" where
  "Clear_loop w this =
     (case get_next w (HeadOf this) of Inl e \<Rightarrow> Some (Inl e) | Inr node_to_delete \<Rightarrow>
      if node_to_delete \<noteq> Nullptr then
        (case get_next w node_to_delete of Inl e \<Rightarrow> Some (Inl e) | Inr succ \<Rightarrow>
        (case set_next w (HeadOf this) succ of Inl e \<Rightarrow> Some (Inl e) | Inr w1 \<Rightarrow>
        (case delete_Node w1 node_to_delete of Inl e \<Rightarrow> Some (Inl e) | Inr w2 \<Rightarrow>
           Clear_loop w2 this)))
      else Some (Inr w))"

definition Clear :: "'a world \<Rightarrow> lid \<Rightarrow> (error + 'a world) option" where
  "Clear w this =
     lift (get_list w this) (\<lambda>L.
       if size_counter L = 0 then Some (Inr w)
       else after (Clear_loop w this) (\<lambda>w1.
            lift (get_list w1 this) (\<lambda>L1. Some (Inr (put_list w1 this (L1\<lparr>size_counter := 0\<rparr>))))))"

text \<open>\<^verbatim>\<open>~SingleLinkedList() { Clear(); }\<close>, after which the object is gone.\<close>

definition destroy :: "'a world \<Rightarrow> lid \<Rightarrow> (error + 'a world) option" where
  "destroy w this = after (Clear w this) (\<lambda>w1. Some (Inr (w1\<lparr>lists := (lists w1)(this := None)\<rparr>)))"

subsection \<open>Construction from a range\<close>

text \<open>
  \<^verbatim>\<open>PushListTmp\<close> is a template over the iterator type \<^verbatim>\<open>It\<close>. It uses three operations
  of it: \<^verbatim>\<open>*p\<close>, \<^verbatim>\<open>std::advance(p, 1)\<close> and \<^verbatim>\<open>p != end\<close>. The first two are the
  parameters \<open>star\<close> and \<open>advance\<close>; they read the store, since a list iterator does.

  The loop \<^verbatim>\<open>while (p != end) { tmp_p = tmp.InsertAfter(tmp_p, *p); std::advance(p, 1); }\<close>:
\<close>

partial_function (option) PushListTmp_loop ::
  "('a world \<Rightarrow> 'i \<Rightarrow> error + 'a) \<Rightarrow> ('a world \<Rightarrow> 'i \<Rightarrow> error + 'i) \<Rightarrow>
   'a world \<Rightarrow> lid \<Rightarrow> 'i \<Rightarrow> 'i \<Rightarrow> BasicIterator \<Rightarrow> (error + 'a world) option" where
  "PushListTmp_loop star advance w tmp p e tmp_p =
     (if p \<noteq> e then
        (case star w p of Inl er \<Rightarrow> Some (Inl er) | Inr v \<Rightarrow>
        (case InsertAfter w tmp tmp_p v of Inl er \<Rightarrow> Some (Inl er) | Inr (w1, it) \<Rightarrow>
        (case advance w1 p of Inl er \<Rightarrow> Some (Inl er) | Inr q \<Rightarrow>
           PushListTmp_loop star advance w1 tmp q e it)))
      else Some (Inr w))"

text \<open>
  The body of \<^verbatim>\<open>PushListTmp\<close>: \<^verbatim>\<open>p\<close> starts at \<^verbatim>\<open>begin\<close>; the local list
  \<^verbatim>\<open>tmp\<close> is default-constructed; \<^verbatim>\<open>InitHead\<close> puts the element \<^verbatim>\<open>*p\<close> into it;
  \<^verbatim>\<open>tmp_p = tmp.begin()\<close>; \<^verbatim>\<open>std::advance(p, 1)\<close>; the loop; \<^verbatim>\<open>swap(tmp)\<close>; and
  the destructor of \<^verbatim>\<open>tmp\<close> at the end of the scope.
\<close>

definition PushListTmp ::
  "('a world \<Rightarrow> 'i \<Rightarrow> error + 'a) \<Rightarrow> ('a world \<Rightarrow> 'i \<Rightarrow> error + 'i) \<Rightarrow>
   'a world \<Rightarrow> lid \<Rightarrow> 'i \<Rightarrow> 'i \<Rightarrow> (error + 'a world) option" where
  "PushListTmp star advance w this b e =
     (let p = b in
      case SingleLinkedList_default w of (w0, tmp) \<Rightarrow>
      lift (star w0 p) (\<lambda>v.
      lift (InitHead w0 tmp v) (\<lambda>w1.
      lift (list_begin w1 tmp) (\<lambda>tmp_p.
      lift (advance w1 p) (\<lambda>q.
      after (PushListTmp_loop star advance w1 tmp q e tmp_p) (\<lambda>w2.
      lift (swap w2 this tmp) (\<lambda>w3.
      destroy w3 tmp)))))))"

text \<open>
  The iterators of \<^verbatim>\<open>std::initializer_list<Type>\<close> are pointers into its array: an index
  here, \<^verbatim>\<open>begin()\<close> being 0 and \<^verbatim>\<open>end()\<close> the length. Reading at an index that is not
  inside the array is undefined behaviour.
\<close>

definition array_star :: "'a list \<Rightarrow> 'a world \<Rightarrow> nat \<Rightarrow> error + 'a" where
  "array_star values w i = (if i < length values then Inr (values ! i) else Inl UndefinedBehaviour)"

definition array_advance :: "'a world \<Rightarrow> nat \<Rightarrow> error + nat" where
  "array_advance w i = Inr (Suc i)"

text \<open>
  \<^verbatim>\<open>SingleLinkedList(std::initializer_list<Type> values) {
      PushListTmp(values.begin(), values.end()); }\<close>
\<close>

definition SingleLinkedList_values :: "'a world \<Rightarrow> 'a list \<Rightarrow> (error + 'a world \<times> lid) option" where
  "SingleLinkedList_values w values =
     (case SingleLinkedList_default w of (w0, this) \<Rightarrow>
      after (PushListTmp (array_star values) array_advance w0 this 0 (length values))
        (\<lambda>w1. Some (Inr (w1, this))))"

text \<open>
  \<^verbatim>\<open>SingleLinkedList(const SingleLinkedList &other) {
      if (other.IsEmpty()) return;
      PushListTmp(other.begin(), other.end()); }\<close>
\<close>

definition SingleLinkedList_copy :: "'a world \<Rightarrow> lid \<Rightarrow> (error + 'a world \<times> lid) option" where
  "SingleLinkedList_copy w other =
     (case SingleLinkedList_default w of (w0, this) \<Rightarrow>
      lift (IsEmpty w0 other) (\<lambda>empty.
        if empty then Some (Inr (w0, this))
        else lift (list_begin w0 other) (\<lambda>b.
             after (PushListTmp deref incr w0 this b list_end)
               (\<lambda>w1. Some (Inr (w1, this))))))"

subsection \<open>Copy assignment\<close>

text \<open>
  \<^verbatim>\<open>assert(head_.next_node != rhs.head_.next_node);
  if (this != &rhs) { SingleLinkedList tmp(rhs); swap(tmp); }
  return *this;\<close>
\<close>

definition operator_assign :: "'a world \<Rightarrow> lid \<Rightarrow> lid \<Rightarrow> (error + 'a world) option" where
  "operator_assign w this rhs =
     lift (get_next w (HeadOf this)) (\<lambda>a.
     lift (get_next w (HeadOf rhs)) (\<lambda>b.
       if \<not> (a \<noteq> b) then Some (Inl AssertionFailed)
       else if this \<noteq> rhs then
         after (SingleLinkedList_copy w rhs) (\<lambda>(w1, tmp).
         lift (swap w1 this tmp) (\<lambda>w2.
         destroy w2 tmp))
       else Some (Inr w)))"

subsection \<open>Comparison\<close>

text \<open>
  \<^verbatim>\<open>std::equal(first1, last1, first2, last2)\<close> of the standard library, for forward
  iterators: it walks both ranges together, returns false at the first pair of elements
  that differ, and otherwise tells whether both ranges ended together. The elements are
  compared with the equality of their type.
\<close>

partial_function (option) std_equal ::
  "'a world \<Rightarrow> BasicIterator \<Rightarrow> BasicIterator \<Rightarrow> BasicIterator \<Rightarrow> BasicIterator \<Rightarrow> (error + bool) option" where
  "std_equal w first1 last1 first2 last2 =
     (if first1 \<noteq> last1 \<and> first2 \<noteq> last2 then
        (case deref w first1 of Inl e \<Rightarrow> Some (Inl e) | Inr x \<Rightarrow>
        (case deref w first2 of Inl e \<Rightarrow> Some (Inl e) | Inr y \<Rightarrow>
         if \<not> (x = y) then Some (Inr False)
         else (case incr w first1 of Inl e \<Rightarrow> Some (Inl e) | Inr next1 \<Rightarrow>
              (case incr w first2 of Inl e \<Rightarrow> Some (Inl e) | Inr next2 \<Rightarrow>
                 std_equal w next1 last1 next2 last2))))
      else Some (Inr (first1 = last1 \<and> first2 = last2)))"

text \<open>
  \<^verbatim>\<open>if (lhs.begin() == rhs.begin()) return true;
  return (lhs.GetSize() == rhs.GetSize()
          && std::equal(lhs.begin(), lhs.end(), rhs.begin(), rhs.end()));\<close>
\<close>

definition operator_eq :: "'a world \<Rightarrow> lid \<Rightarrow> lid \<Rightarrow> (error + bool) option" where
  "operator_eq w lhs rhs =
     lift (list_begin w lhs) (\<lambda>b1.
     lift (list_begin w rhs) (\<lambda>b2.
       if iterator_eq b1 b2 then Some (Inr True)
       else lift (GetSize w lhs) (\<lambda>n1.
            lift (GetSize w rhs) (\<lambda>n2.
              if n1 = n2 then std_equal w b1 list_end b2 list_end
              else Some (Inr False)))))"

definition operator_neq :: "'a world \<Rightarrow> lid \<Rightarrow> lid \<Rightarrow> (error + bool) option" where
  "operator_neq w lhs rhs = after (operator_eq w lhs rhs) (\<lambda>r. Some (Inr (\<not> r)))"

section \<open>Observing a list\<close>

text \<open>
  What a caller sees of a list is what a loop \<^verbatim>\<open>for (auto it = l.begin(); it != l.end(); ++it)\<close>
  collects when its body appends \<^verbatim>\<open>*it\<close> to the output.
\<close>

partial_function (option) collect ::
  "'a world \<Rightarrow> BasicIterator \<Rightarrow> BasicIterator \<Rightarrow> 'a list \<Rightarrow> (error + 'a list) option" where
  "collect w it e out =
     (if iterator_neq it e then
        (case deref w it of Inl er \<Rightarrow> Some (Inl er) | Inr v \<Rightarrow>
        (case incr w it of Inl er \<Rightarrow> Some (Inl er) | Inr it1 \<Rightarrow>
           collect w it1 e (out @ [v])))
      else Some (Inr out))"

definition elements :: "'a world \<Rightarrow> lid \<Rightarrow> (error + 'a list) option" where
  "elements w l = lift (list_begin w l) (\<lambda>b. collect w b list_end [])"

declare Clear_loop.simps [code] PushListTmp_loop.simps [code] std_equal.simps [code] collect.simps [code]

section \<open>Well-formed lists\<close>

text \<open>
  \<open>seg w p cs q\<close>: following the links from \<open>p\<close> visits exactly the live heap nodes
  listed in \<open>cs\<close>, each given by its address and its value, and arrives at \<open>q\<close>.
\<close>

primrec seg :: "'a world \<Rightarrow> ptr \<Rightarrow> (addr \<times> 'a) list \<Rightarrow> ptr \<Rightarrow> bool" where
  "seg w p [] q = (p = q)"
| "seg w p (c # cs) q =
     (p = NodeAt (fst c) \<and>
      (case nodes w (fst c) of None \<Rightarrow> False | Some n \<Rightarrow> val n = snd c \<and> seg w (next_node n) cs q))"

text \<open>
  The invariant of the data model: the chain that starts at the sentinel's link ends at the
  null pointer, and the size counter is the number of its nodes (which a \<^verbatim>\<open>size_t\<close> can
  hold).
\<close>

definition is_list :: "'a world \<Rightarrow> lid \<Rightarrow> (addr \<times> 'a) list \<Rightarrow> bool" where
  "is_list w l cs =
     (case lists w l of None \<Rightarrow> False
      | Some L \<Rightarrow> seg w (head_next_node L) cs Nullptr \<and> size_counter L = length cs
          \<and> length cs < size_t_mod)"

text \<open>The allocator has not yet handed out the addresses from \<open>next_free\<close> on.\<close>

definition heap_ok :: "'a world \<Rightarrow> bool" where
  "heap_ok w = (\<forall>a. next_free w \<le> a \<longrightarrow> nodes w a = None)"

text \<open>
  The cursor that stands after the nodes \<open>pre\<close> of list \<open>l\<close>: \<^verbatim>\<open>before_begin()\<close> when
  \<open>pre\<close> is empty, an iterator to the last node of \<open>pre\<close> otherwise.
\<close>

definition position :: "lid \<Rightarrow> (addr \<times> 'a) list \<Rightarrow> BasicIterator" where
  "position l pre = (if pre = [] then before_begin l else NodeAt (fst (last pre)))"

definition first_of :: "(addr \<times> 'a) list \<Rightarrow> BasicIterator" where
  "first_of cs = (case cs of [] \<Rightarrow> list_end | c # _ \<Rightarrow> NodeAt (fst c))"

section \<open>Sequences of operations\<close>

datatype 'a operation =
    Op_PushFront lid 'a
  | Op_InsertAfter lid BasicIterator 'a
  | Op_PopFront lid
  | Op_EraseAfter lid BasicIterator
  | Op_Clear lid
  | Op_swap lid lid

text \<open>One call; the iterator that \<open>InsertAfter\<close> and \<open>EraseAfter\<close> return is dropped.\<close>

fun perform :: "'a world \<Rightarrow> 'a operation \<Rightarrow> (error + 'a world) option" where
  "perform w (Op_PushFront l v) = Some (PushFront w l v)"
| "perform w (Op_InsertAfter l pos v) = Some (and_then (InsertAfter w l pos v) (\<lambda>(w1, it). Inr w1))"
| "perform w (Op_PopFront l) = Some (PopFront w l)"
| "perform w (Op_EraseAfter l pos) = Some (and_then (EraseAfter w l pos) (\<lambda>(w1, it). Inr w1))"
| "perform w (Op_Clear l) = Clear w l"
| "perform w (Op_swap a b) = Some (swap_free w a b)"

fun run :: "'a world \<Rightarrow> 'a operation list \<Rightarrow> (error + 'a world) option" where
  "run w [] = Some (Inr w)"
| "run w (x # xs) = after (perform w x) (\<lambda>w1. run w1 xs)"

text \<open>
  The preconditions of the operations. A cursor is at a valid position of list \<open>l\<close> when it
  is not terminal and walking from the sentinel of \<open>l\<close> meets it; it has a successor when the
  link of its node is not null.
\<close>

partial_function (option) reaches :: "'a world \<Rightarrow> ptr \<Rightarrow> ptr \<Rightarrow> bool option" where
  "reaches w p target =
     (if p = target then Some True
      else if p = Nullptr then Some False
      else (case get_next w p of Inl e \<Rightarrow> Some False | Inr q \<Rightarrow> reaches w q target))"

declare reaches.simps [code]

definition valid_position :: "'a world \<Rightarrow> lid \<Rightarrow> BasicIterator \<Rightarrow> bool" where
  "valid_position w l pos =
     (pos \<noteq> Nullptr \<and> lists w l \<noteq> None \<and> reaches w (before_begin l) pos = Some True)"

definition has_successor :: "'a world \<Rightarrow> BasicIterator \<Rightarrow> bool" where
  "has_successor w pos = (case get_next w pos of Inl e \<Rightarrow> False | Inr q \<Rightarrow> q \<noteq> Nullptr)"

fun permitted :: "'a world \<Rightarrow> 'a operation \<Rightarrow> bool" where
  "permitted w (Op_PushFront l v) = (lists w l \<noteq> None)"
| "permitted w (Op_InsertAfter l pos v) = valid_position w l pos"
| "permitted w (Op_PopFront l) = (lists w l \<noteq> None)"
| "permitted w (Op_EraseAfter l pos) =
     (IsEmpty w l = Inr True \<or> (valid_position w l pos \<and> has_successor w pos))"
| "permitted w (Op_Clear l) = (lists w l \<noteq> None)"
| "permitted w (Op_swap a b) = (lists w a \<noteq> None \<and> lists w b \<noteq> None)"

text \<open>Every operation of the sequence meets its precondition in the store it is called in.\<close>

fun permitted_run :: "'a world \<Rightarrow> 'a operation list \<Rightarrow> bool" where
  "permitted_run w [] = True"
| "permitted_run w (x # xs) =
     (permitted w x \<and> (case perform w x of Some (Inr w1) \<Rightarrow> permitted_run w1 xs | _ \<Rightarrow> True))"

text \<open>\<open>n\<close> default-constructed lists, numbered from 0, and no node.\<close>

primrec fresh_lists :: "nat \<Rightarrow> 'a world" where
  "fresh_lists 0 = \<lparr>nodes = Map.empty, next_free = 0, lists = Map.empty, next_list = 0\<rparr>"
| "fresh_lists (Suc n) = fst (SingleLinkedList_default (fresh_lists n))"

text \<open>
  The invariant of a store with several lists: \<open>cs l\<close> is the chain of list \<open>l\<close>, and the
  chains of different lists share no node.
\<close>

definition world_ok :: "'a world \<Rightarrow> (lid \<Rightarrow> (addr \<times> 'a) list) \<Rightarrow> bool" where
  "world_ok w cs =
     (heap_ok w
      \<and> (\<forall>l. case lists w l of None \<Rightarrow> cs l = [] | Some L \<Rightarrow> is_list w l (cs l))
      \<and> (\<forall>l k. l \<noteq> k \<longrightarrow> fst ` set (cs l) \<inter> fst ` set (cs k) = {}))"

section \<open>Example stores\<close>

text \<open>List 0 holds \<open>a, b, c\<close> and list 1 is empty.\<close>

definition abc_and_empty :: "char world" where
  "abc_and_empty =
     \<lparr>nodes = [0 \<mapsto> \<lparr>val = CHR ''a'', next_node = NodeAt 1\<rparr>,
               1 \<mapsto> \<lparr>val = CHR ''b'', next_node = NodeAt 2\<rparr>,
               2 \<mapsto> \<lparr>val = CHR ''c'', next_node = Nullptr\<rparr>],
      next_free = 3,
      lists = [0 \<mapsto> \<lparr>head_next_node = NodeAt 0, size_counter = 3\<rparr>,
               1 \<mapsto> \<lparr>head_next_node = Nullptr, size_counter = 0\<rparr>],
      next_list = 2\<rparr>"

text \<open>A single list, number 0, holding \<open>a, b\<close>.\<close>

definition ab_list :: "char world" where
  "ab_list =
     \<lparr>nodes = [0 \<mapsto> \<lparr>val = CHR ''a'', next_node = NodeAt 1\<rparr>,
               1 \<mapsto> \<lparr>val = CHR ''b'', next_node = Nullptr\<rparr>],
      next_free = 2,
      lists = [0 \<mapsto> \<lparr>head_next_node = NodeAt 0, size_counter = 2\<rparr>],
      next_list = 1\<rparr>"

text \<open>Lists 0 and 1 are both empty.\<close>

definition two_empty :: "char world" where
  "two_empty =
     \<lparr>nodes = Map.empty, next_free = 0,
      lists = [0 \<mapsto> \<lparr>head_next_node = Nullptr, size_counter = 0\<rparr>,
               1 \<mapsto> \<lparr>head_next_node = Nullptr, size_counter = 0\<rparr>],
      next_list = 2\<rparr>"

text \<open>Lists 0 and 1 both hold \<open>a, b\<close>, in different nodes.\<close>

definition ab_and_ab :: "char world" where
  "ab_and_ab =
     \<lparr>nodes = [0 \<mapsto> \<lparr>val = CHR ''a'', next_node = NodeAt 1\<rparr>,
               1 \<mapsto> \<lparr>val = CHR ''b'', next_node = Nullptr\<rparr>,
               2 \<mapsto> \<lparr>val = CHR ''a'', next_node = NodeAt 3\<rparr>,
               3 \<mapsto> \<lparr>val = CHR ''b'', next_node = Nullptr\<rparr>],
      next_free = 4,
      lists = [0 \<mapsto> \<lparr>head_next_node = NodeAt 0, size_counter = 2\<rparr>,
               1 \<mapsto> \<lparr>head_next_node = NodeAt 2, size_counter = 2\<rparr>],
      next_list = 2\<rparr>"

text \<open>A sequence of calls on two lists that uses every operation.\<close>

definition example_run :: "char operation list" where
  "example_run =
     [Op_PushFront 0 (CHR ''b''),
      Op_InsertAfter 0 (before_begin 0) (CHR ''a''),
      Op_InsertAfter 0 (NodeAt 0) (CHR ''c''),
      Op_swap 1 0,
      Op_EraseAfter 1 (NodeAt 1),
      Op_PopFront 1,
      Op_PushFront 0 (CHR ''d''),
      Op_Clear 0,
      Op_EraseAfter 0 (NodeAt 5)]"

section \<open>Basic facts\<close>

lemma and_then_simps [simp]:
  "and_then (Inl e) f = Inl e" "and_then (Inr x) f = f x"
  by (simp_all add: and_then_def)

lemma lift_simps [simp]:
  "lift (Inl e) g = Some (Inl e)" "lift (Inr x) g = g x"
  by (simp_all add: lift_def)

lemma after_simps [simp]:
  "after None g = None" "after (Some (Inl e)) g = Some (Inl e)" "after (Some (Inr x)) g = g x"
  by (simp_all add: after_def)

lemma size_t_mod_pos [simp]: "0 < size_t_mod"
  by (simp add: size_t_mod_def)

lemma inc_size_t: "Suc n < size_t_mod \<Longrightarrow> size_t_inc n = Suc n"
  by (simp add: size_t_inc_def)

lemma dec_size_t: "0 < n \<Longrightarrow> n < size_t_mod \<Longrightarrow> size_t_dec n = n - 1"
proof -
  assume a: "0 < n" "n < size_t_mod"
  then have "n + (size_t_mod - 1) = (n - 1) + size_t_mod" by simp
  then have "size_t_dec n = ((n - 1) + size_t_mod) mod size_t_mod"
    by (simp only: size_t_dec_def)
  also have "\<dots> = (n - 1) mod size_t_mod" by (rule mod_add_self2)
  also have "\<dots> = n - 1" using a by simp
  finally show ?thesis .
qed

lemma to_size_t_small: "n < size_t_mod \<Longrightarrow> to_size_t n = n"
  by (simp add: to_size_t_def)

lemma small_size: "n < 1000 \<Longrightarrow> n < size_t_mod"
  by (simp add: size_t_mod_def)

lemmas pointer_defs = get_list_def put_list_def get_next_def set_next_def new_Node_def delete_Node_def
  iterator_eq_def iterator_neq_def incr_def deref_def list_begin_def list_end_def before_begin_def

lemmas member_defs = GetSize_def IsEmpty_def SetSize_def inc_size_def dec_size_def
  SingleLinkedList_default_def PushFront_def InitHead_def InsertAfter_def PopFront_def EraseAfter_def
  std_swap_size_def std_swap_head_def swap_def swap_free_def Clear_def destroy_def PushListTmp_def
  array_star_def array_advance_def SingleLinkedList_values_def SingleLinkedList_copy_def
  operator_assign_def operator_eq_def operator_neq_def elements_def

lemmas loop_simps = Clear_loop.simps PushListTmp_loop.simps std_equal.simps collect.simps

section \<open>Chains of nodes\<close>

lemma seg_Cons_iff:
  "seg w p (c # cs) q \<longleftrightarrow>
     p = NodeAt (fst c) \<and> (\<exists>n. nodes w (fst c) = Some n \<and> val n = snd c \<and> seg w (next_node n) cs q)"
  by (auto split: option.splits)

lemma seg_Nullptr [simp]: "seg w Nullptr cs q \<longleftrightarrow> cs = [] \<and> q = Nullptr"
  by (cases cs) auto

lemma seg_append:
  "seg w p (cs @ ds) q \<longleftrightarrow> (\<exists>r. seg w p cs r \<and> seg w r ds q)"
  by (induction cs arbitrary: p) (auto split: option.splits)

lemma seg_frame:
  "\<forall>c\<in>set cs. nodes w' (fst c) = nodes w (fst c) \<Longrightarrow> seg w' p cs q = seg w p cs q"
  by (induction cs arbitrary: p) (auto split: option.splits)

lemma seg_functional: "seg w p cs Nullptr \<Longrightarrow> seg w p ds Nullptr \<Longrightarrow> cs = ds"
proof (induction cs arbitrary: p ds)
  case Nil
  then show ?case by (cases ds) auto
next
  case (Cons c cs)
  then show ?case by (cases ds) (auto split: option.splits simp: prod_eq_iff)
qed

lemma seg_distinct: "seg w p cs Nullptr \<Longrightarrow> distinct (map fst cs)"
proof (induction cs arbitrary: p)
  case Nil
  then show ?case by simp
next
  case (Cons c cs)
  from Cons.prems obtain n where n: "nodes w (fst c) = Some n" "seg w (next_node n) cs Nullptr"
    by (auto split: option.splits)
  have "fst c \<notin> fst ` set cs"
  proof
    assume "fst c \<in> fst ` set cs"
    then obtain d where d: "d \<in> set cs" "fst d = fst c" by auto
    then obtain xs ys where split: "cs = xs @ d # ys" by (meson split_list)
    with n(2) obtain q where q: "seg w q (d # ys) Nullptr" using seg_append by blast
    moreover have "p = NodeAt (fst c)" using Cons.prems by simp
    ultimately have "seg w p (d # ys) Nullptr" using d(2) by simp
    with Cons.prems have "d # ys = c # cs" using seg_functional by blast
    then have "length (d # ys) = length (c # cs)" by simp
    with split show False by simp
  qed
  with Cons.IH [OF n(2)] show ?case by simp
qed

lemma seg_live: "seg w p cs q \<Longrightarrow> c \<in> set cs \<Longrightarrow> nodes w (fst c) \<noteq> None"
  by (induction cs arbitrary: p) (auto split: option.splits)

lemma collect_seg:
  "seg w p cs Nullptr \<Longrightarrow> collect w p list_end out = Some (Inr (out @ map snd cs))"
proof (induction cs arbitrary: p out)
  case Nil
  then show ?case by (simp add: collect.simps iterator_neq_def iterator_eq_def list_end_def)
next
  case (Cons c cs)
  from Cons.prems obtain n where n: "p = NodeAt (fst c)" "nodes w (fst c) = Some n" "val n = snd c"
      "seg w (next_node n) cs Nullptr"
    by (auto split: option.splits)
  have "collect w p list_end out = collect w (next_node n) list_end (out @ [snd c])"
    using n(1-3) by (subst collect.simps) (simp add: iterator_neq_def iterator_eq_def list_end_def deref_def incr_def get_next_def)
  with Cons.IH [OF n(4)] show ?case by simp
qed

lemma is_list_observe:
  assumes "is_list w l cs"
  shows "elements w l = Some (Inr (map snd cs))" and "GetSize w l = Inr (length cs)"
    and "IsEmpty w l = Inr (cs = [])" and "list_begin w l = Inr list_end \<longleftrightarrow> cs = []"
  using assms collect_seg [of w _ cs "[]"]
  by (auto simp: is_list_def elements_def list_begin_def get_list_def GetSize_def IsEmpty_def list_end_def
      split: option.splits list.splits)

lemma is_listD:
  assumes "is_list w l cs"
  obtains L where "lists w l = Some L" "seg w (head_next_node L) cs Nullptr" "size_counter L = length cs"
  using assms by (auto simp: is_list_def split: option.splits)

lemma is_list_bound: "is_list w l cs \<Longrightarrow> length cs < size_t_mod"
  by (auto simp: is_list_def split: option.splits)

lemma is_list_distinct: "is_list w l cs \<Longrightarrow> distinct (map fst cs)"
  by (erule is_listD) (rule seg_distinct)

lemma is_list_frame:
  assumes "is_list w l cs" "lists w' l = lists w l" "\<forall>c\<in>set cs. nodes w' (fst c) = nodes w (fst c)"
  shows "is_list w' l cs"
proof -
  from assms(1) obtain L where L: "lists w l = Some L" "seg w (head_next_node L) cs Nullptr"
      "size_counter L = length cs" by (rule is_listD)
  from L(2) have "seg w' (head_next_node L) cs Nullptr" by (simp add: seg_frame [OF assms(3)])
  with L assms(2) is_list_bound [OF assms(1)] show ?thesis by (simp add: is_list_def)
qed

lemma is_list_fresh:
  assumes "is_list w l cs" "heap_ok w" "c \<in> set cs"
  shows "fst c < next_free w"
proof (rule ccontr)
  assume "\<not> fst c < next_free w"
  with assms(2) have "nodes w (fst c) = None" by (simp add: heap_ok_def)
  moreover from assms(1,3) have "nodes w (fst c) \<noteq> None"
    by (auto elim!: is_listD dest: seg_live)
  ultimately show False by simp
qed

lemma PopFront_empty: "is_list w l [] \<Longrightarrow> PopFront w l = Inr w"
  by (auto simp: is_list_def PopFront_def IsEmpty_def GetSize_def get_list_def split: option.splits)

lemma PopFront_step:
  assumes "is_list w l (c # cs)"
  shows "\<exists>w'. PopFront w l = Inr w' \<and> is_list w' l cs \<and> nodes w' = (nodes w)(fst c := None)
           \<and> (\<forall>k. k \<noteq> l \<longrightarrow> lists w' k = lists w k)
           \<and> next_free w' = next_free w \<and> next_list w' = next_list w"
proof -
  from assms obtain L n where L: "lists w l = Some L" "head_next_node L = NodeAt (fst c)"
      "size_counter L = Suc (length cs)"
    and n: "nodes w (fst c) = Some n" "val n = snd c" "seg w (next_node n) cs Nullptr"
    by (auto simp: is_list_def split: option.splits)
  from assms have "distinct (map fst (c # cs))" by (rule is_list_distinct)
  then have "fst c \<notin> fst ` set cs" by simp
  then have fresh: "\<forall>d\<in>set cs. fst d \<noteq> fst c" by (metis imageI)
  from is_list_bound [OF assms] have bound: "Suc (length cs) < size_t_mod" by simp
  define w' where "w' = w\<lparr>nodes := (nodes w)(fst c := None),
      lists := (lists w)(l \<mapsto> L\<lparr>head_next_node := next_node n, size_counter := length cs\<rparr>)\<rparr>"
  have "PopFront w l = Inr w'"
    using L n(1) bound by (simp add: PopFront_def IsEmpty_def GetSize_def get_list_def get_next_def
        set_next_def put_list_def delete_Node_def dec_size_def dec_size_t w'_def)
  moreover have "seg w' (next_node n) cs Nullptr"
    using n(3) fresh by (subst seg_frame [of cs w' w]) (simp_all add: w'_def)
  then have "is_list w' l cs" using bound by (simp add: is_list_def w'_def)
  ultimately show ?thesis by (simp add: w'_def)
qed

lemma notin_fstD: "a \<notin> fst ` set cs \<Longrightarrow> c \<in> set cs \<Longrightarrow> fst c \<noteq> a"
  by (metis imageI)

lemma heap_ok_dom: "heap_ok w \<longleftrightarrow> (\<forall>a\<in>dom (nodes w). a < next_free w)"
proof
  assume h: "heap_ok w"
  show "\<forall>a\<in>dom (nodes w). a < next_free w"
  proof
    fix a assume a: "a \<in> dom (nodes w)"
    show "a < next_free w"
    proof (rule ccontr)
      assume "\<not> a < next_free w"
      with h have "nodes w a = None" by (simp add: heap_ok_def)
      with a show False by auto
    qed
  qed
next
  assume h: "\<forall>a\<in>dom (nodes w). a < next_free w"
  show "heap_ok w"
    unfolding heap_ok_def
  proof (intro allI impI)
    fix a assume a: "next_free w \<le> a"
    show "nodes w a = None"
    proof (rule ccontr)
      assume "nodes w a \<noteq> None"
      then have "a \<in> dom (nodes w)" by auto
      with h have "a < next_free w" by blast
      with a show False by simp
    qed
  qed
qed

lemma PushFront_step:
  assumes "is_list w l cs" "heap_ok w" "Suc (length cs) < size_t_mod"
  shows "\<exists>w'. PushFront w l v = Inr w' \<and> is_list w' l ((next_free w, v) # cs)
           \<and> (\<forall>a. a \<noteq> next_free w \<longrightarrow> nodes w' a = nodes w a)
           \<and> dom (nodes w') = insert (next_free w) (dom (nodes w))
           \<and> (\<forall>k. k \<noteq> l \<longrightarrow> lists w' k = lists w k)
           \<and> next_free w' = Suc (next_free w) \<and> next_list w' = next_list w"
proof -
  from assms(1) obtain L where L: "lists w l = Some L" "seg w (head_next_node L) cs Nullptr"
      "size_counter L = length cs" by (rule is_listD)
  have fresh: "\<forall>c\<in>set cs. fst c \<noteq> next_free w"
    using is_list_fresh [OF assms(1,2)] by fastforce
  define w' where "w' = w\<lparr>nodes := (nodes w)(next_free w \<mapsto> \<lparr>val = v, next_node = head_next_node L\<rparr>),
      next_free := Suc (next_free w),
      lists := (lists w)(l \<mapsto> L\<lparr>head_next_node := NodeAt (next_free w), size_counter := Suc (length cs)\<rparr>)\<rparr>"
  have "PushFront w l v = Inr w'"
    using L(1,3) assms(3) by (simp add: PushFront_def get_next_def new_Node_def set_next_def put_list_def
        inc_size_def inc_size_t get_list_def w'_def)
  moreover have "seg w' (head_next_node L) cs Nullptr"
    using L(2) fresh by (subst seg_frame [of cs w' w]) (simp_all add: w'_def)
  then have "is_list w' l ((next_free w, v) # cs)" using assms(3) by (simp add: is_list_def w'_def)
  ultimately show ?thesis by (simp add: w'_def)
qed

lemma InsertAfter_head:
  assumes "is_list w l cs" "heap_ok w" "Suc (length cs) < size_t_mod"
  shows "\<exists>w'. InsertAfter w l (HeadOf l) v = Inr (w', NodeAt (next_free w))
           \<and> is_list w' l ((next_free w, v) # cs)
           \<and> (\<forall>a. a \<noteq> next_free w \<longrightarrow> nodes w' a = nodes w a)
           \<and> dom (nodes w') = insert (next_free w) (dom (nodes w))
           \<and> (\<forall>k. k \<noteq> l \<longrightarrow> lists w' k = lists w k)
           \<and> next_free w' = Suc (next_free w) \<and> next_list w' = next_list w"
proof -
  from assms(1) obtain L where L: "lists w l = Some L" "seg w (head_next_node L) cs Nullptr"
      "size_counter L = length cs" by (rule is_listD)
  have fresh: "\<forall>c\<in>set cs. fst c \<noteq> next_free w"
    using is_list_fresh [OF assms(1,2)] by fastforce
  define w' where "w' = w\<lparr>nodes := (nodes w)(next_free w \<mapsto> \<lparr>val = v, next_node = head_next_node L\<rparr>),
      next_free := Suc (next_free w),
      lists := (lists w)(l \<mapsto> L\<lparr>head_next_node := NodeAt (next_free w), size_counter := Suc (length cs)\<rparr>)\<rparr>"
  have "InsertAfter w l (HeadOf l) v = Inr (w', NodeAt (next_free w))"
    using L(1,3) assms(3) by (simp add: InsertAfter_def get_next_def new_Node_def set_next_def put_list_def
        inc_size_def inc_size_t get_list_def w'_def)
  moreover have "seg w' (head_next_node L) cs Nullptr"
    using L(2) fresh by (subst seg_frame [of cs w' w]) (simp_all add: w'_def)
  then have "is_list w' l ((next_free w, v) # cs)" using assms(3) by (simp add: is_list_def w'_def)
  ultimately show ?thesis by (simp add: w'_def)
qed

lemma InsertAfter_node:
  assumes "is_list w l (pre @ (a, x) # post)" "heap_ok w"
    "Suc (length (pre @ (a, x) # post)) < size_t_mod"
  shows "\<exists>w'. InsertAfter w l (NodeAt a) v = Inr (w', NodeAt (next_free w))
           \<and> is_list w' l (pre @ (a, x) # (next_free w, v) # post)
           \<and> (\<forall>b. b \<noteq> next_free w \<longrightarrow> b \<noteq> a \<longrightarrow> nodes w' b = nodes w b)
           \<and> dom (nodes w') = insert (next_free w) (dom (nodes w))
           \<and> (\<forall>k. k \<noteq> l \<longrightarrow> lists w' k = lists w k)
           \<and> next_free w' = Suc (next_free w) \<and> next_list w' = next_list w"
proof -
  let ?f = "next_free w"
  from assms(1) obtain L where L: "lists w l = Some L"
      "seg w (head_next_node L) (pre @ (a, x) # post) Nullptr"
      "size_counter L = length (pre @ (a, x) # post)" by (rule is_listD)
  from L(2) obtain n where pre: "seg w (head_next_node L) pre (NodeAt a)"
    and n: "nodes w a = Some n" "val n = x" and post: "seg w (next_node n) post Nullptr"
    by (auto simp: seg_append split: option.splits)
  have "distinct (map fst (pre @ (a, x) # post))" using assms(1) by (rule is_list_distinct)
  then have a_pre: "\<forall>c\<in>set pre. fst c \<noteq> a" and a_post: "\<forall>c\<in>set post. fst c \<noteq> a"
    by (auto dest: notin_fstD)
  have fresh: "\<forall>c\<in>set (pre @ (a, x) # post). fst c \<noteq> ?f"
    using is_list_fresh [OF assms(1,2)] by fastforce
  then have f_a: "a \<noteq> ?f" by simp
  define w' where "w' = w\<lparr>nodes := (nodes w)(?f \<mapsto> \<lparr>val = v, next_node = next_node n\<rparr>,
                                             a \<mapsto> n\<lparr>next_node := NodeAt ?f\<rparr>),
      next_free := Suc ?f,
      lists := (lists w)(l \<mapsto> L\<lparr>size_counter := Suc (size_counter L)\<rparr>)\<rparr>"
  have run: "InsertAfter w l (NodeAt a) v = Inr (w', NodeAt ?f)"
    using L(1,3) n(1) f_a assms(3) by (simp add: InsertAfter_def get_next_def new_Node_def set_next_def
        put_list_def inc_size_def inc_size_t get_list_def w'_def)
  have 1: "seg w' (head_next_node L) pre (NodeAt a)"
    using pre a_pre fresh by (subst seg_frame [of pre w' w]) (simp_all add: w'_def)
  have 2: "seg w' (next_node n) post Nullptr"
    using post a_post fresh by (subst seg_frame [of post w' w]) (simp_all add: w'_def)
  have "seg w' (NodeAt a) ((a, x) # (?f, v) # post) Nullptr"
    using 2 n f_a by (simp add: w'_def)
  with 1 have "seg w' (head_next_node L) (pre @ (a, x) # (?f, v) # post) Nullptr"
    unfolding seg_append by blast
  then have "is_list w' l (pre @ (a, x) # (?f, v) # post)"
    using L(3) assms(3) by (simp add: is_list_def w'_def)
  moreover have "dom (nodes w') = insert ?f (dom (nodes w))"
    using n(1) by (auto simp: w'_def)
  ultimately show ?thesis using run by (simp add: w'_def)
qed

lemma position_Nil [simp]: "position l [] = HeadOf l"
  by (simp add: position_def before_begin_def)

lemma position_snoc [simp]: "position l (pre @ [c]) = NodeAt (fst c)"
  by (simp add: position_def)

lemma InsertAfter_step:
  assumes "is_list w l (pre @ post)" "heap_ok w" "Suc (length (pre @ post)) < size_t_mod"
  shows "\<exists>w'. InsertAfter w l (position l pre) v = Inr (w', NodeAt (next_free w))
           \<and> is_list w' l (pre @ (next_free w, v) # post)
           \<and> (\<forall>b. b \<noteq> next_free w \<longrightarrow> b \<notin> fst ` set pre \<longrightarrow> nodes w' b = nodes w b)
           \<and> dom (nodes w') = insert (next_free w) (dom (nodes w))
           \<and> (\<forall>k. k \<noteq> l \<longrightarrow> lists w' k = lists w k)
           \<and> next_free w' = Suc (next_free w) \<and> next_list w' = next_list w"
proof (cases pre rule: rev_cases)
  case Nil
  with InsertAfter_head [of w l post v] assms show ?thesis by simp
next
  case (snoc pre' c)
  obtain a x where c: "c = (a, x)" by (cases c)
  from assms(1) snoc c have 1: "is_list w l (pre' @ (a, x) # post)" by simp
  from assms(3) snoc c have 2: "Suc (length (pre' @ (a, x) # post)) < size_t_mod" by simp
  from InsertAfter_node [OF 1 assms(2) 2, of v] snoc c show ?thesis by auto
qed

lemma seg_first_of: "seg w p cs Nullptr \<Longrightarrow> p = first_of cs"
  by (cases cs) (auto simp: first_of_def list_end_def)

lemma EraseAfter_empty: "is_list w l [] \<Longrightarrow> EraseAfter w l pos = Inr (w, Nullptr)"
  by (auto simp: is_list_def EraseAfter_def IsEmpty_def GetSize_def get_list_def split: option.splits)

lemma EraseAfter_head:
  assumes "is_list w l (d # post)"
  shows "\<exists>w'. EraseAfter w l (HeadOf l) = Inr (w', first_of post)
           \<and> is_list w' l post
           \<and> nodes w' = (nodes w)(fst d := None)
           \<and> (\<forall>k. k \<noteq> l \<longrightarrow> lists w' k = lists w k)
           \<and> next_free w' = next_free w \<and> next_list w' = next_list w"
proof -
  from assms obtain L where L: "lists w l = Some L" "seg w (head_next_node L) (d # post) Nullptr"
      "size_counter L = length (d # post)" by (rule is_listD)
  from L(2) obtain n where hd: "head_next_node L = NodeAt (fst d)"
    and n: "nodes w (fst d) = Some n" and post: "seg w (next_node n) post Nullptr"
    by (auto split: option.splits)
  from assms have "distinct (map fst (d # post))" by (rule is_list_distinct)
  then have fresh: "\<forall>c\<in>set post. fst c \<noteq> fst d" by (auto dest: notin_fstD)
  define w' where "w' = w\<lparr>nodes := (nodes w)(fst d := None),
      lists := (lists w)(l \<mapsto> L\<lparr>head_next_node := next_node n, size_counter := length post\<rparr>)\<rparr>"
  from is_list_bound [OF assms] have bound: "Suc (length post) < size_t_mod" by simp
  have run: "EraseAfter w l (HeadOf l) = Inr (w', next_node n)"
    using L(1,3) hd n bound by (simp add: EraseAfter_def IsEmpty_def GetSize_def get_list_def get_next_def
        set_next_def put_list_def delete_Node_def dec_size_def dec_size_t w'_def)
  have 1: "seg w' (next_node n) post Nullptr"
    using post fresh by (subst seg_frame [of post w' w]) (simp_all add: w'_def)
  then have "is_list w' l post" using bound by (simp add: is_list_def w'_def)
  moreover have "next_node n = first_of post" using post by (rule seg_first_of)
  ultimately show ?thesis using run by (simp add: w'_def)
qed

lemma EraseAfter_node:
  assumes "is_list w l (pre @ (a, x) # d # post)"
  shows "\<exists>w'. EraseAfter w l (NodeAt a) = Inr (w', first_of post)
           \<and> is_list w' l (pre @ (a, x) # post)
           \<and> (\<forall>b. b \<noteq> fst d \<longrightarrow> b \<noteq> a \<longrightarrow> nodes w' b = nodes w b)
           \<and> dom (nodes w') = dom (nodes w) - {fst d}
           \<and> (\<forall>k. k \<noteq> l \<longrightarrow> lists w' k = lists w k)
           \<and> next_free w' = next_free w \<and> next_list w' = next_list w"
proof -
  from assms obtain L where L: "lists w l = Some L"
      "seg w (head_next_node L) (pre @ (a, x) # d # post) Nullptr"
      "size_counter L = length (pre @ (a, x) # d # post)" by (rule is_listD)
  from L(2) obtain n m where pre: "seg w (head_next_node L) pre (NodeAt a)"
    and n: "nodes w a = Some n" "val n = x" "next_node n = NodeAt (fst d)"
    and m: "nodes w (fst d) = Some m" and post: "seg w (next_node m) post Nullptr"
    by (auto simp: seg_append split: option.splits)
  have "distinct (map fst (pre @ (a, x) # d # post))" using assms by (rule is_list_distinct)
  then have a_pre: "\<forall>c\<in>set pre. fst c \<noteq> a" and a_post: "\<forall>c\<in>set post. fst c \<noteq> a"
    and d_pre: "\<forall>c\<in>set pre. fst c \<noteq> fst d" and d_post: "\<forall>c\<in>set post. fst c \<noteq> fst d"
    and a_d: "a \<noteq> fst d"
    by (auto dest: notin_fstD)
  define w' where "w' = w\<lparr>nodes := (nodes w)(a \<mapsto> n\<lparr>next_node := next_node m\<rparr>, fst d := None),
      lists := (lists w)(l \<mapsto> L\<lparr>size_counter := length (pre @ (a, x) # post)\<rparr>)\<rparr>"
  from is_list_bound [OF assms] have bound: "Suc (length (pre @ (a, x) # post)) < size_t_mod" by simp
  have "size_counter L = Suc (length (pre @ (a, x) # post))" using L(3) by simp
  then have run: "EraseAfter w l (NodeAt a) = Inr (w', next_node m)"
    using L(1) n m a_d bound
    by (simp add: dec_size_t EraseAfter_def IsEmpty_def GetSize_def get_list_def get_next_def
        set_next_def put_list_def delete_Node_def dec_size_def w'_def)
  have 1: "seg w' (head_next_node L) pre (NodeAt a)"
    using pre a_pre d_pre by (subst seg_frame [of pre w' w]) (simp_all add: w'_def)
  have 2: "seg w' (next_node m) post Nullptr"
    using post a_post d_post by (subst seg_frame [of post w' w]) (simp_all add: w'_def)
  have "seg w' (NodeAt a) ((a, x) # post) Nullptr"
    using 2 n a_d by (simp add: w'_def)
  with 1 have "seg w' (head_next_node L) (pre @ (a, x) # post) Nullptr"
    unfolding seg_append by blast
  then have "is_list w' l (pre @ (a, x) # post)"
    using bound by (simp add: is_list_def w'_def)
  moreover have "next_node m = first_of post" using post by (rule seg_first_of)
  moreover have "dom (nodes w') = dom (nodes w) - {fst d}"
    using n(1) a_d by (auto simp: w'_def)
  ultimately show ?thesis using run by (simp add: w'_def)
qed

lemma EraseAfter_step:
  assumes "is_list w l (pre @ d # post)"
  shows "\<exists>w'. EraseAfter w l (position l pre) = Inr (w', first_of post)
           \<and> is_list w' l (pre @ post)
           \<and> (\<forall>b. b \<noteq> fst d \<longrightarrow> b \<notin> fst ` set pre \<longrightarrow> nodes w' b = nodes w b)
           \<and> dom (nodes w') = dom (nodes w) - {fst d}
           \<and> (\<forall>k. k \<noteq> l \<longrightarrow> lists w' k = lists w k)
           \<and> next_free w' = next_free w \<and> next_list w' = next_list w"
proof (cases pre rule: rev_cases)
  case Nil
  from assms Nil have "is_list w l (d # post)" by simp
  then have "nodes w (fst d) \<noteq> None" by (auto elim!: is_listD split: option.splits)
  with EraseAfter_head [OF \<open>is_list w l (d # post)\<close>] Nil show ?thesis by auto
next
  case (snoc pre' c)
  obtain a x where c: "c = (a, x)" by (cases c)
  from assms snoc c have "is_list w l (pre' @ (a, x) # d # post)" by simp
  from EraseAfter_node [OF this] snoc c show ?thesis by auto
qed

lemma Clear_loop_seg:
  "lists w l = Some L \<Longrightarrow> seg w (head_next_node L) cs Nullptr \<Longrightarrow>
   \<exists>w'. Clear_loop w l = Some (Inr w')
      \<and> nodes w' = (\<lambda>a. if a \<in> fst ` set cs then None else nodes w a)
      \<and> lists w' = (lists w)(l \<mapsto> L\<lparr>head_next_node := Nullptr\<rparr>)
      \<and> next_free w' = next_free w \<and> next_list w' = next_list w"
proof (induction cs arbitrary: w L)
  case Nil
  then have "Clear_loop w l = Some (Inr w)"
    by (subst Clear_loop.simps) (simp add: get_next_def)
  moreover from Nil have "(lists w)(l \<mapsto> L\<lparr>head_next_node := Nullptr\<rparr>) = lists w"
    by (auto simp: fun_eq_iff)
  ultimately show ?case by simp
next
  case (Cons c cs)
  from Cons.prems(2) obtain n where hd: "head_next_node L = NodeAt (fst c)"
    and n: "nodes w (fst c) = Some n" and rest: "seg w (next_node n) cs Nullptr"
    by (auto split: option.splits)
  from Cons.prems(2) have "distinct (map fst (c # cs))" by (rule seg_distinct)
  then have fresh: "\<forall>d\<in>set cs. fst d \<noteq> fst c" by (auto dest: notin_fstD)
  define w2 where "w2 = w\<lparr>lists := (lists w)(l \<mapsto> L\<lparr>head_next_node := next_node n\<rparr>),
      nodes := (nodes w)(fst c := None)\<rparr>"
  have step: "Clear_loop w l = Clear_loop w2 l"
    using Cons.prems(1) hd n
    by (subst Clear_loop.simps) (simp add: get_next_def set_next_def put_list_def delete_Node_def w2_def)
  have L2: "lists w2 l = Some (L\<lparr>head_next_node := next_node n\<rparr>)" by (simp add: w2_def)
  have "seg w2 (next_node n) cs Nullptr"
    using rest fresh by (subst seg_frame [of cs w2 w]) (simp_all add: w2_def)
  then have "seg w2 (head_next_node (L\<lparr>head_next_node := next_node n\<rparr>)) cs Nullptr" by simp
  from Cons.IH [OF L2 this] obtain w' where w': "Clear_loop w2 l = Some (Inr w')"
    "nodes w' = (\<lambda>a. if a \<in> fst ` set cs then None else nodes w2 a)"
    "lists w' = (lists w2)(l \<mapsto> L\<lparr>head_next_node := next_node n\<rparr>\<lparr>head_next_node := Nullptr\<rparr>)"
    "next_free w' = next_free w2" "next_list w' = next_list w2" by blast
  show ?case
  proof (intro exI conjI)
    show "Clear_loop w l = Some (Inr w')" using step w'(1) by simp
    show "nodes w' = (\<lambda>a. if a \<in> fst ` set (c # cs) then None else nodes w a)"
      using w'(2) by (auto simp: w2_def fun_eq_iff)
    show "lists w' = (lists w)(l \<mapsto> L\<lparr>head_next_node := Nullptr\<rparr>)"
      using w'(3) by (simp add: w2_def)
    show "next_free w' = next_free w" using w'(4) by (simp add: w2_def)
    show "next_list w' = next_list w" using w'(5) by (simp add: w2_def)
  qed
qed

lemma Clear_step:
  assumes "is_list w l cs"
  shows "\<exists>w'. Clear w l = Some (Inr w') \<and> is_list w' l []
           \<and> nodes w' = (\<lambda>a. if a \<in> fst ` set cs then None else nodes w a)
           \<and> (\<forall>k. k \<noteq> l \<longrightarrow> lists w' k = lists w k)
           \<and> next_free w' = next_free w \<and> next_list w' = next_list w"
proof (cases cs)
  case Nil
  with assms have "Clear w l = Some (Inr w)"
    by (auto simp: Clear_def get_list_def elim!: is_listD)
  with assms Nil show ?thesis by simp
next
  case (Cons c cs')
  from assms obtain L where L: "lists w l = Some L" "seg w (head_next_node L) cs Nullptr"
      "size_counter L = length cs" by (rule is_listD)
  from Clear_loop_seg [OF L(1,2)] obtain w1 where w1: "Clear_loop w l = Some (Inr w1)"
    "nodes w1 = (\<lambda>a. if a \<in> fst ` set cs then None else nodes w a)"
    "lists w1 = (lists w)(l \<mapsto> L\<lparr>head_next_node := Nullptr\<rparr>)"
    "next_free w1 = next_free w" "next_list w1 = next_list w" by blast
  define w' where "w' = put_list w1 l (L\<lparr>head_next_node := Nullptr, size_counter := 0\<rparr>)"
  have "Clear w l = Some (Inr w')"
    using L(1,3) Cons w1(1,3) by (simp add: Clear_def get_list_def w'_def)
  moreover have "is_list w' l []" by (simp add: is_list_def w'_def put_list_def)
  ultimately show ?thesis using w1 by (simp add: w'_def put_list_def)
qed

lemma swap_step:
  assumes "is_list w a as" "is_list w b bs"
  shows "\<exists>w'. swap w a b = Inr w'
           \<and> is_list w' a (if bs = [] then as else bs) \<and> is_list w' b (if bs = [] then bs else as)
           \<and> (bs = [] \<longrightarrow> w' = w)
           \<and> nodes w' = nodes w
           \<and> (\<forall>k. k \<noteq> a \<longrightarrow> k \<noteq> b \<longrightarrow> lists w' k = lists w k)
           \<and> next_free w' = next_free w \<and> next_list w' = next_list w"
proof (cases "bs = []")
  case True
  with assms(2) have "swap w a b = Inr w"
    by (auto simp: swap_def IsEmpty_def GetSize_def get_list_def elim!: is_listD)
  with assms True show ?thesis by simp
next
  case False
  from assms(1) obtain A where A: "lists w a = Some A" "seg w (head_next_node A) as Nullptr"
      "size_counter A = length as" by (rule is_listD)
  from assms(2) obtain B where B: "lists w b = Some B" "seg w (head_next_node B) bs Nullptr"
      "size_counter B = length bs" by (rule is_listD)
  show ?thesis
  proof (cases "a = b")
    case True
    with A B have AB: "A = B" by simp
    with A(2) B(2) have same: "as = bs" by (auto dest: seg_functional)
    have "put_list w b B = w" using B(1) by (simp add: put_list_def fun_upd_idem)
    have "swap w a b = Inr w"
      using True False B AB by (simp add: swap_def IsEmpty_def GetSize_def get_list_def
          std_swap_size_def std_swap_head_def put_list_def fun_upd_idem)
    with assms same True show ?thesis by auto
  next
    case neq: False
    define w' where "w' = w\<lparr>lists := (lists w)
        (b \<mapsto> B\<lparr>size_counter := size_counter A, head_next_node := head_next_node A\<rparr>,
         a \<mapsto> A\<lparr>size_counter := size_counter B, head_next_node := head_next_node B\<rparr>)\<rparr>"
    have "swap w a b = Inr w'"
      using neq False A(1) B(1) B(3) by (simp add: swap_def IsEmpty_def GetSize_def get_list_def
          std_swap_size_def std_swap_head_def put_list_def w'_def fun_upd_twist)
    moreover have "seg w' (head_next_node B) bs Nullptr"
      using B(2) by (subst seg_frame [of bs w' w]) (simp_all add: w'_def)
    then have "is_list w' a bs"
      using B(3) is_list_bound [OF assms(2)] by (simp add: is_list_def w'_def)
    moreover have "seg w' (head_next_node A) as Nullptr"
      using A(2) by (subst seg_frame [of as w' w]) (simp_all add: w'_def)
    then have "is_list w' b as"
      using A(3) neq is_list_bound [OF assms(1)] by (simp add: is_list_def w'_def)
    ultimately show ?thesis using False by (simp add: w'_def)
  qed
qed

lemma std_equal_seg:
  "seg w p as Nullptr \<Longrightarrow> seg w q bs Nullptr \<Longrightarrow>
   std_equal w p list_end q list_end = Some (Inr (map snd as = map snd bs))"
proof (induction as arbitrary: p q bs)
  case Nil
  then show ?case
    by (subst std_equal.simps) (auto simp: list_end_def)
next
  case (Cons a as)
  from Cons.prems(1) obtain n where n: "p = NodeAt (fst a)" "nodes w (fst a) = Some n" "val n = snd a"
      "seg w (next_node n) as Nullptr"
    by (auto split: option.splits)
  show ?case
  proof (cases bs)
    case Nil
    with Cons.prems(2) n(1) show ?thesis
      by (subst std_equal.simps) (simp add: list_end_def)
  next
    case (Cons b bs')
    with Cons.prems(2) obtain m where m: "q = NodeAt (fst b)" "nodes w (fst b) = Some m" "val m = snd b"
        "seg w (next_node m) bs' Nullptr"
      by (auto split: option.splits)
    show ?thesis
    proof (cases "snd a = snd b")
      case True
      have "std_equal w p list_end q list_end = std_equal w (next_node n) list_end (next_node m) list_end"
        using n(1-3) m(1-3) True
        by (subst std_equal.simps) (simp add: list_end_def deref_def incr_def get_next_def)
      with Cons.IH [OF n(4) m(4)] True Cons show ?thesis by simp
    next
      case False
      have "std_equal w p list_end q list_end = Some (Inr False)"
        using n(1-3) m(1-3) False
        by (subst std_equal.simps) (simp add: list_end_def deref_def)
      with False Cons show ?thesis by simp
    qed
  qed
qed

section \<open>Cursors\<close>

lemma reaches_seg:
  "seg w p cs Nullptr \<Longrightarrow>
   reaches w p pos = Some (pos = Nullptr \<or> (\<exists>c\<in>set cs. pos = NodeAt (fst c)))"
proof (induction cs arbitrary: p)
  case Nil
  then show ?case by (subst reaches.simps) auto
next
  case (Cons c cs)
  from Cons.prems obtain n where n: "p = NodeAt (fst c)" "nodes w (fst c) = Some n"
      "seg w (next_node n) cs Nullptr"
    by (auto split: option.splits)
  show ?case
  proof (cases "pos = p")
    case True
    with n(1) show ?thesis by (subst reaches.simps) auto
  next
    case False
    then have "reaches w p pos = reaches w (next_node n) pos"
      using n(1,2) by (subst reaches.simps) (simp add: get_next_def)
    with Cons.IH [OF n(3)] False n(1) show ?thesis by auto
  qed
qed

lemma valid_position_cases:
  assumes "is_list w l cs" "valid_position w l pos"
  shows "\<exists>pre post. cs = pre @ post \<and> pos = position l pre"
proof (cases "pos = HeadOf l")
  case True
  then have "cs = [] @ cs \<and> pos = position l []" by simp
  then show ?thesis by blast
next
  case False
  from assms(1) obtain L where L: "lists w l = Some L" "seg w (head_next_node L) cs Nullptr"
    by (rule is_listD)
  from assms(2) have nn: "pos \<noteq> Nullptr" and r: "reaches w (HeadOf l) pos = Some True"
    by (simp_all add: valid_position_def before_begin_def)
  from False L(1) have "reaches w (HeadOf l) pos = reaches w (head_next_node L) pos"
    by (subst reaches.simps) (auto simp: get_next_def)
  with r reaches_seg [OF L(2), of pos] nn obtain c where c: "c \<in> set cs" "pos = NodeAt (fst c)"
    by auto
  from c(1) obtain xs ys where "cs = xs @ c # ys" by (meson split_list)
  with c(2) have "cs = (xs @ [c]) @ ys \<and> pos = position l (xs @ [c])" by simp
  then show ?thesis by blast
qed

lemma seg_next_position:
  assumes "is_list w l (pre @ post)"
  shows "get_next w (position l pre) = Inr (first_of post)"
proof (cases pre rule: rev_cases)
  case Nil
  from assms obtain L where L: "lists w l = Some L" "seg w (head_next_node L) (pre @ post) Nullptr"
    by (rule is_listD)
  with Nil show ?thesis by (auto simp: get_next_def dest: seg_first_of)
next
  case (snoc xs c)
  from assms obtain L where L: "lists w l = Some L" "seg w (head_next_node L) (pre @ post) Nullptr"
    by (rule is_listD)
  with snoc obtain n where "nodes w (fst c) = Some n" "seg w (next_node n) post Nullptr"
    by (auto simp: seg_append split: option.splits)
  with snoc show ?thesis by (auto simp: get_next_def dest: seg_first_of)
qed

lemma has_successor_cases:
  assumes "is_list w l (pre @ post)" "has_successor w (position l pre)"
  shows "\<exists>d rest. post = d # rest"
proof -
  from assms(2) seg_next_position [OF assms(1)] have "first_of post \<noteq> Nullptr"
    by (simp add: has_successor_def)
  then show ?thesis by (cases post) (auto simp: first_of_def list_end_def)
qed

section \<open>The invariant of a store is kept\<close>

lemma world_okD:
  assumes "world_ok w cs"
  shows "heap_ok w"
    and "lists w l \<noteq> None \<Longrightarrow> is_list w l (cs l)"
    and "lists w l = None \<Longrightarrow> cs l = []"
    and "l \<noteq> k \<Longrightarrow> fst ` set (cs l) \<inter> fst ` set (cs k) = {}"
proof -
  from assms show "heap_ok w" by (simp add: world_ok_def)
  from assms have 1: "case lists w l of None \<Rightarrow> cs l = [] | Some L \<Rightarrow> is_list w l (cs l)"
    unfolding world_ok_def by blast
  from 1 show "lists w l \<noteq> None \<Longrightarrow> is_list w l (cs l)" by (auto split: option.splits)
  from 1 show "lists w l = None \<Longrightarrow> cs l = []" by (auto split: option.splits)
  from assms show "l \<noteq> k \<Longrightarrow> fst ` set (cs l) \<inter> fst ` set (cs k) = {}"
    unfolding world_ok_def by blast
qed

lemma world_ok_below:
  assumes "world_ok w cs" "c \<in> set (cs k)"
  shows "fst c < next_free w"
proof (cases "lists w k")
  case None
  with world_okD(3) [OF assms(1)] assms(2) show ?thesis by simp
next
  case (Some L)
  then have "is_list w k (cs k)" using world_okD(2) [OF assms(1)] by simp
  from is_list_fresh [OF this world_okD(1) [OF assms(1)] assms(2)] show ?thesis .
qed

lemma world_ok_update:
  assumes ok: "world_ok w cs" and live: "lists w l \<noteq> None"
    and new: "is_list w' l ds"
    and others: "\<forall>k. k \<noteq> l \<longrightarrow> lists w' k = lists w k"
    and frame: "\<forall>b. b \<notin> fst ` set (cs l) \<longrightarrow> b < next_free w \<longrightarrow> nodes w' b = nodes w b"
    and heap: "heap_ok w'"
    and origin: "\<forall>c\<in>set ds. fst c \<in> fst ` set (cs l) \<or> next_free w \<le> fst c"
  shows "world_ok w' (cs(l := ds))"
  unfolding world_ok_def
proof (intro conjI allI impI)
  show "heap_ok w'" by fact
next
  fix k
  show "case lists w' k of None \<Rightarrow> (cs(l := ds)) k = [] | Some L \<Rightarrow> is_list w' k ((cs(l := ds)) k)"
  proof (cases "k = l")
    case True
    with new show ?thesis by (auto simp: is_list_def split: option.splits)
  next
    case False
    with others have same: "lists w' k = lists w k" by simp
    show ?thesis
    proof (cases "lists w k")
      case None
      with same False world_okD(3) [OF ok None] show ?thesis by simp
    next
      case (Some L)
      then have k: "is_list w k (cs k)" using world_okD(2) [OF ok] by simp
      have "\<forall>c\<in>set (cs k). nodes w' (fst c) = nodes w (fst c)"
      proof
        fix c assume c: "c \<in> set (cs k)"
        from world_okD(4) [OF ok False] c have "fst c \<notin> fst ` set (cs l)" by auto
        moreover from world_ok_below [OF ok c] have "fst c < next_free w" .
        ultimately show "nodes w' (fst c) = nodes w (fst c)" using frame by simp
      qed
      from is_list_frame [OF k same this] same Some False show ?thesis by simp
    qed
  qed
next
  fix i k :: lid
  assume ik: "i \<noteq> k"
  have disj: "fst ` set ds \<inter> fst ` set (cs j) = {}" if "j \<noteq> l" for j
  proof (rule ccontr)
    assume "fst ` set ds \<inter> fst ` set (cs j) \<noteq> {}"
    then obtain c d where c: "c \<in> set ds" and d: "d \<in> set (cs j)" and eq: "fst c = fst d" by auto
    from world_ok_below [OF ok d] have below: "fst d < next_free w" .
    from origin c have "fst c \<in> fst ` set (cs l) \<or> next_free w \<le> fst c" by blast
    with below have "fst d \<in> fst ` set (cs l)" unfolding eq by auto
    with d world_okD(4) [OF ok that] show False by auto
  qed
  show "fst ` set ((cs(l := ds)) i) \<inter> fst ` set ((cs(l := ds)) k) = {}"
  proof (cases "i = l")
    case True
    with ik disj [of k] show ?thesis by simp
  next
    case il: False
    show ?thesis
    proof (cases "k = l")
      case True
      with il disj [of i] show ?thesis by (simp add: Int_commute)
    next
      case False
      with il ik world_okD(4) [OF ok ik] show ?thesis by simp
    qed
  qed
qed

lemma heap_ok_shrink:
  assumes "heap_ok w" "next_free w' = next_free w" "dom (nodes w') \<subseteq> dom (nodes w)"
  shows "heap_ok w'"
  using assms unfolding heap_ok_dom by (metis subsetD)

lemma heap_ok_grow:
  assumes "heap_ok w" "next_free w' = Suc (next_free w)"
    "dom (nodes w') = insert (next_free w) (dom (nodes w))"
  shows "heap_ok w'"
  using assms unfolding heap_ok_dom by (metis insertE less_Suc_eq)

lemma chain_length_le:
  assumes "is_list w l cs" "heap_ok w"
  shows "length cs \<le> next_free w"
proof -
  have "distinct (map fst cs)" using assms(1) by (rule is_list_distinct)
  then have "length cs = card (set (map fst cs))" by (metis distinct_card length_map)
  also have "set (map fst cs) \<subseteq> {..<next_free w}"
    using is_list_fresh [OF assms] by auto
  then have "card (set (map fst cs)) \<le> card {..<next_free w}"
    by (intro card_mono) simp_all
  finally show ?thesis by simp
qed

lemma same_liveness:
  assumes "lists w l \<noteq> None" "is_list w' l ds" "\<forall>k. k \<noteq> l \<longrightarrow> lists w' k = lists w k"
  shows "lists w' k = None \<longleftrightarrow> lists w k = None"
proof (cases "k = l")
  case True
  with assms(1,2) show ?thesis by (auto elim!: is_listD)
next
  case False
  with assms(3) show ?thesis by simp
qed

lemma PushFront_ok:
  assumes ok: "world_ok w cs" and live: "lists w l \<noteq> None"
    and room: "Suc (next_free w) < size_t_mod"
  shows "\<exists>w' cs'. PushFront w l v = Inr w' \<and> world_ok w' cs'
           \<and> (\<forall>k. lists w' k = None \<longleftrightarrow> lists w k = None)
           \<and> next_free w' \<le> Suc (next_free w)"
proof -
  let ?f = "next_free w"
  note h = world_okD(1) [OF ok]
  from world_okD(2) [OF ok live] have l: "is_list w l (cs l)" .
  from chain_length_le [OF l h] room have small: "Suc (length (cs l)) < size_t_mod" by simp
  from PushFront_step [OF l h small, of v] obtain w' where w': "PushFront w l v = Inr w'"
    "is_list w' l ((?f, v) # cs l)" "\<forall>a. a \<noteq> ?f \<longrightarrow> nodes w' a = nodes w a"
    "dom (nodes w') = insert ?f (dom (nodes w))" "\<forall>k. k \<noteq> l \<longrightarrow> lists w' k = lists w k"
    "next_free w' = Suc ?f" by blast
  have "world_ok w' (cs(l := (?f, v) # cs l))"
  proof (rule world_ok_update [OF ok live w'(2) w'(5)])
    show "\<forall>b. b \<notin> fst ` set (cs l) \<longrightarrow> b < ?f \<longrightarrow> nodes w' b = nodes w b" using w'(3) by simp
    show "heap_ok w'" using h w'(6) w'(4) by (rule heap_ok_grow)
    show "\<forall>c\<in>set ((?f, v) # cs l). fst c \<in> fst ` set (cs l) \<or> ?f \<le> fst c" by auto
  qed
  moreover have "next_free w' \<le> Suc ?f" using w'(6) by simp
  ultimately show ?thesis using w'(1) same_liveness [OF live w'(2) w'(5)] by blast
qed

lemma InsertAfter_ok:
  assumes ok: "world_ok w cs" and pos: "valid_position w l pos"
    and room: "Suc (next_free w) < size_t_mod"
  shows "\<exists>w' it cs'. InsertAfter w l pos v = Inr (w', it) \<and> world_ok w' cs'
           \<and> (\<forall>k. lists w' k = None \<longleftrightarrow> lists w k = None)
           \<and> next_free w' \<le> Suc (next_free w)"
proof -
  let ?f = "next_free w"
  note h = world_okD(1) [OF ok]
  from pos have live: "lists w l \<noteq> None" by (simp add: valid_position_def)
  from world_okD(2) [OF ok live] have l: "is_list w l (cs l)" .
  from valid_position_cases [OF l pos] obtain pre post where
    split: "cs l = pre @ post" "pos = position l pre" by blast
  from l split(1) have l': "is_list w l (pre @ post)" by simp
  from chain_length_le [OF l' h] room have small: "Suc (length (pre @ post)) < size_t_mod" by simp
  from InsertAfter_step [OF l' h small, of v] split(2) obtain w' where
    w': "InsertAfter w l pos v = Inr (w', NodeAt ?f)"
    "is_list w' l (pre @ (?f, v) # post)"
    "\<forall>b. b \<noteq> ?f \<longrightarrow> b \<notin> fst ` set pre \<longrightarrow> nodes w' b = nodes w b"
    "dom (nodes w') = insert ?f (dom (nodes w))" "\<forall>k. k \<noteq> l \<longrightarrow> lists w' k = lists w k"
    "next_free w' = Suc ?f" by blast
  have "world_ok w' (cs(l := pre @ (?f, v) # post))"
  proof (rule world_ok_update [OF ok live w'(2) w'(5)])
    show "\<forall>b. b \<notin> fst ` set (cs l) \<longrightarrow> b < ?f \<longrightarrow> nodes w' b = nodes w b"
      using w'(3) split(1) by (simp add: image_Un)
    show "heap_ok w'" using h w'(6) w'(4) by (rule heap_ok_grow)
    show "\<forall>c\<in>set (pre @ (?f, v) # post). fst c \<in> fst ` set (cs l) \<or> ?f \<le> fst c"
      using split(1) by auto
  qed
  moreover have "next_free w' \<le> Suc ?f" using w'(6) by simp
  ultimately show ?thesis using w'(1) same_liveness [OF live w'(2) w'(5)] by blast
qed

lemma PopFront_ok:
  assumes ok: "world_ok w cs" and live: "lists w l \<noteq> None"
  shows "\<exists>w' cs'. PopFront w l = Inr w' \<and> world_ok w' cs'
           \<and> (\<forall>k. lists w' k = None \<longleftrightarrow> lists w k = None)
           \<and> next_free w' \<le> Suc (next_free w)"
proof (cases "cs l")
  case Nil
  with world_okD(2) [OF ok live] have "PopFront w l = Inr w" by (simp add: PopFront_empty)
  moreover have "next_free w \<le> Suc (next_free w)" by simp
  ultimately show ?thesis using ok by blast
next
  case (Cons c rest)
  note h = world_okD(1) [OF ok]
  from world_okD(2) [OF ok live] Cons have l: "is_list w l (c # rest)" by simp
  from PopFront_step [OF l] obtain w' where w': "PopFront w l = Inr w'"
    "is_list w' l rest" "nodes w' = (nodes w)(fst c := None)"
    "\<forall>k. k \<noteq> l \<longrightarrow> lists w' k = lists w k" "next_free w' = next_free w" by blast
  have "world_ok w' (cs(l := rest))"
  proof (rule world_ok_update [OF ok live w'(2) w'(4)])
    show "\<forall>b. b \<notin> fst ` set (cs l) \<longrightarrow> b < next_free w \<longrightarrow> nodes w' b = nodes w b"
      using w'(3) Cons by auto
    show "heap_ok w'" using h w'(5) by (rule heap_ok_shrink) (auto simp: w'(3))
    show "\<forall>c\<in>set rest. fst c \<in> fst ` set (cs l) \<or> next_free w \<le> fst c"
      using Cons by auto
  qed
  moreover have "next_free w' \<le> Suc (next_free w)" using w'(5) by simp
  ultimately show ?thesis using w'(1) same_liveness [OF live w'(2) w'(4)] by blast
qed

lemma EraseAfter_ok:
  assumes ok: "world_ok w cs"
    and pos: "IsEmpty w l = Inr True \<or> (valid_position w l pos \<and> has_successor w pos)"
  shows "\<exists>w' it cs'. EraseAfter w l pos = Inr (w', it) \<and> world_ok w' cs'
           \<and> (\<forall>k. lists w' k = None \<longleftrightarrow> lists w k = None)
           \<and> next_free w' \<le> Suc (next_free w)"
proof -
  from pos have live: "lists w l \<noteq> None"
    by (auto simp: valid_position_def IsEmpty_def GetSize_def get_list_def split: option.splits)
  from world_okD(2) [OF ok live] have l: "is_list w l (cs l)" .
  show ?thesis
  proof (cases "cs l = []")
    case True
    with l have "EraseAfter w l pos = Inr (w, Nullptr)" by (simp add: EraseAfter_empty)
    moreover have "next_free w \<le> Suc (next_free w)" by simp
    ultimately show ?thesis using ok by blast
  next
    case False
    with is_list_observe(3) [OF l] pos
    have valid: "valid_position w l pos" and succ: "has_successor w pos" by auto
    from valid_position_cases [OF l valid] obtain pre post where
      split: "cs l = pre @ post" "pos = position l pre" by blast
    from l split(1) have l': "is_list w l (pre @ post)" by simp
    from has_successor_cases [OF l'] succ split(2) obtain d rest where post: "post = d # rest"
      by blast
    from l' post have l'': "is_list w l (pre @ d # rest)" by simp
    from EraseAfter_step [OF l''] split(2) obtain w' where
      w': "EraseAfter w l pos = Inr (w', first_of rest)" "is_list w' l (pre @ rest)"
      "\<forall>b. b \<noteq> fst d \<longrightarrow> b \<notin> fst ` set pre \<longrightarrow> nodes w' b = nodes w b"
      "dom (nodes w') = dom (nodes w) - {fst d}"
      "\<forall>k. k \<noteq> l \<longrightarrow> lists w' k = lists w k" "next_free w' = next_free w" by blast
    have "world_ok w' (cs(l := pre @ rest))"
    proof (rule world_ok_update [OF ok live w'(2) w'(5)])
      show "\<forall>b. b \<notin> fst ` set (cs l) \<longrightarrow> b < next_free w \<longrightarrow> nodes w' b = nodes w b"
        using w'(3) split(1) post by (simp add: image_Un)
      show "heap_ok w'" using world_okD(1) [OF ok] w'(6) by (rule heap_ok_shrink) (auto simp: w'(4))
      show "\<forall>c\<in>set (pre @ rest). fst c \<in> fst ` set (cs l) \<or> next_free w \<le> fst c"
        using split(1) post by auto
    qed
    moreover have "next_free w' \<le> Suc (next_free w)" using w'(6) by simp
    ultimately show ?thesis using w'(1) same_liveness [OF live w'(2) w'(5)] by blast
  qed
qed

lemma Clear_ok:
  assumes ok: "world_ok w cs" and live: "lists w l \<noteq> None"
  shows "\<exists>w' cs'. Clear w l = Some (Inr w') \<and> world_ok w' cs'
           \<and> (\<forall>k. lists w' k = None \<longleftrightarrow> lists w k = None)
           \<and> next_free w' \<le> Suc (next_free w)"
proof -
  from world_okD(2) [OF ok live] have l: "is_list w l (cs l)" .
  from Clear_step [OF l] obtain w' where w': "Clear w l = Some (Inr w')" "is_list w' l []"
    "nodes w' = (\<lambda>a. if a \<in> fst ` set (cs l) then None else nodes w a)"
    "\<forall>k. k \<noteq> l \<longrightarrow> lists w' k = lists w k" "next_free w' = next_free w" by blast
  have "world_ok w' (cs(l := []))"
  proof (rule world_ok_update [OF ok live w'(2) w'(4)])
    show "\<forall>b. b \<notin> fst ` set (cs l) \<longrightarrow> b < next_free w \<longrightarrow> nodes w' b = nodes w b"
      using w'(3) by auto
    show "heap_ok w'" using world_okD(1) [OF ok] w'(5)
      by (rule heap_ok_shrink) (auto simp: w'(3) split: if_splits)
    show "\<forall>c\<in>set []. fst c \<in> fst ` set (cs l) \<or> next_free w \<le> fst c" by simp
  qed
  moreover have "next_free w' \<le> Suc (next_free w)" using w'(5) by simp
  ultimately show ?thesis using w'(1) same_liveness [OF live w'(2) w'(4)] by blast
qed

lemma swap_ok:
  assumes ok: "world_ok w cs" and live: "lists w a \<noteq> None" "lists w b \<noteq> None"
  shows "\<exists>w' cs'. swap w a b = Inr w' \<and> world_ok w' cs'
           \<and> (\<forall>k. lists w' k = None \<longleftrightarrow> lists w k = None)
           \<and> next_free w' \<le> Suc (next_free w)"
proof -
  from world_okD(2) [OF ok] live have la: "is_list w a (cs a)" and lb: "is_list w b (cs b)" by auto
  from swap_step [OF la lb] obtain w' where w': "swap w a b = Inr w'"
    "is_list w' a (if cs b = [] then cs a else cs b)" "is_list w' b (if cs b = [] then cs b else cs a)"
    "cs b = [] \<longrightarrow> w' = w" "nodes w' = nodes w"
    "\<forall>k. k \<noteq> a \<longrightarrow> k \<noteq> b \<longrightarrow> lists w' k = lists w k" "next_free w' = next_free w" by blast
  have nf: "next_free w' \<le> Suc (next_free w)" using w'(7) by simp
  show ?thesis
  proof (cases "cs b = []")
    case True
    with w'(1,4) ok nf show ?thesis by blast
  next
    case False
    define cs' where "cs' = cs(a := cs b, b := cs a)"
    have alive: "lists w' k = None \<longleftrightarrow> lists w k = None" for k
      using w'(2,3,6) live by (cases "k = a"; cases "k = b") (auto elim!: is_listD)
    have "world_ok w' cs'"
      unfolding world_ok_def
    proof (intro conjI allI impI)
      show "heap_ok w'" using world_okD(1) [OF ok] w'(5,7) by (simp add: heap_ok_def)
    next
      fix k
      show "case lists w' k of None \<Rightarrow> cs' k = [] | Some L \<Rightarrow> is_list w' k (cs' k)"
      proof (cases "k = a \<or> k = b")
        case True
        with w'(2,3) False show ?thesis
          by (auto simp: cs'_def elim!: is_listD split: option.splits)
      next
        case other: False
        with w'(6) have same: "lists w' k = lists w k" by simp
        show ?thesis
        proof (cases "lists w k")
          case None
          with same other world_okD(3) [OF ok None] show ?thesis by (simp add: cs'_def)
        next
          case (Some L)
          then have "is_list w k (cs k)" using world_okD(2) [OF ok] by simp
          from is_list_frame [OF this same] w'(5) same Some other show ?thesis
            by (simp add: cs'_def)
        qed
      qed
    next
      fix i k :: lid
      assume "i \<noteq> k"
      then show "fst ` set (cs' i) \<inter> fst ` set (cs' k) = {}"
        using world_okD(4) [OF ok, of a b] world_okD(4) [OF ok, of b a]
          world_okD(4) [OF ok, of i k] world_okD(4) [OF ok, of a k] world_okD(4) [OF ok, of b k]
          world_okD(4) [OF ok, of i a] world_okD(4) [OF ok, of i b]
        by (simp add: cs'_def)
    qed
    with w'(1) alive nf show ?thesis by blast
  qed
qed

lemma perform_ok:
  assumes "world_ok w cs" "permitted w x" "Suc (next_free w) < size_t_mod"
  shows "\<exists>w' cs'. perform w x = Some (Inr w') \<and> world_ok w' cs'
           \<and> (\<forall>k. lists w' k = None \<longleftrightarrow> lists w k = None)
           \<and> next_free w' \<le> Suc (next_free w)"
proof (cases x)
  case (Op_PushFront l v)
  with assms PushFront_ok [of w cs l v] show ?thesis by simp
next
  case (Op_InsertAfter l pos v)
  with assms InsertAfter_ok [of w cs l pos v] show ?thesis by auto
next
  case (Op_PopFront l)
  with assms PopFront_ok [of w cs l] show ?thesis by simp
next
  case (Op_EraseAfter l pos)
  with assms EraseAfter_ok [of w cs l pos] show ?thesis by auto
next
  case (Op_Clear l)
  with assms Clear_ok [of w cs l] show ?thesis by simp
next
  case (Op_swap a b)
  with assms swap_ok [of w cs a b] show ?thesis by (simp add: swap_free_def)
qed

lemma run_ok:
  "world_ok w cs \<Longrightarrow> permitted_run w xs \<Longrightarrow> next_free w + length xs < size_t_mod \<Longrightarrow>
   \<exists>w' cs'. run w xs = Some (Inr w') \<and> world_ok w' cs'
      \<and> (\<forall>k. lists w' k = None \<longleftrightarrow> lists w k = None)"
proof (induction xs arbitrary: w cs)
  case Nil
  then show ?case by auto
next
  case (Cons x xs)
  from Cons.prems(2) have px: "permitted w x" by simp
  from Cons.prems(3) have room: "Suc (next_free w) < size_t_mod" by simp
  from perform_ok [OF Cons.prems(1) px room] obtain w1 cs1 where
    w1: "perform w x = Some (Inr w1)" "world_ok w1 cs1"
    "\<forall>k. lists w1 k = None \<longleftrightarrow> lists w k = None" "next_free w1 \<le> Suc (next_free w)" by blast
  from Cons.prems(2) w1(1) have p: "permitted_run w1 xs" by simp
  from Cons.prems(3) w1(4) have "next_free w1 + length xs < size_t_mod" by simp
  from Cons.IH [OF w1(2) p this] obtain w' cs' where
    w': "run w1 xs = Some (Inr w')" "world_ok w' cs'"
    "\<forall>k. lists w' k = None \<longleftrightarrow> lists w1 k = None" by blast
  from w1(1) w'(1) have "run w (x # xs) = Some (Inr w')" by simp
  with w'(2,3) w1(3) show ?case by auto
qed

lemma fresh_lists_store:
  "nodes (fresh_lists n) = Map.empty" "next_free (fresh_lists n) = 0" "next_list (fresh_lists n) = n"
  by (induction n) (simp_all add: SingleLinkedList_default_def)

lemma fresh_lists_lists:
  "lists (fresh_lists n) l = (if l < n then Some \<lparr>head_next_node = Nullptr, size_counter = 0\<rparr> else None)"
  by (induction n) (simp_all add: SingleLinkedList_default_def fresh_lists_store less_Suc_eq)

lemmas fresh_lists_fields = fresh_lists_store fresh_lists_lists

lemma fresh_lists_ok: "world_ok (fresh_lists n) (\<lambda>l. [])"
  by (simp add: world_ok_def heap_ok_def is_list_def fresh_lists_fields)

section \<open>The example stores are well-formed\<close>

lemma is_list_abc: "is_list abc_and_empty 0 [(0, CHR ''a''), (1, CHR ''b''), (2, CHR ''c'')]"
  by (simp add: is_list_def abc_and_empty_def small_size)

lemma is_list_abc_empty: "is_list abc_and_empty 1 []"
  by (simp add: is_list_def abc_and_empty_def)

lemma is_list_ab: "is_list ab_list 0 [(0, CHR ''a''), (1, CHR ''b'')]"
  by (simp add: is_list_def ab_list_def small_size)

lemma heap_ok_ab: "heap_ok ab_list"
  by (simp add: heap_ok_def ab_list_def)

lemma elements_abc: "elements abc_and_empty 0 = Some (Inr ''abc'')"
  using is_list_observe(1) [OF is_list_abc] by simp

lemma elements_abc_empty: "elements abc_and_empty 1 = Some (Inr [])"
  using is_list_observe(1) [OF is_list_abc_empty] by simp

lemma example_permitted: "permitted_run (fresh_lists 2) example_run"
  by (simp add: example_run_def numeral_2_eq_2 valid_position_def has_successor_def reaches.simps
      pointer_defs member_defs loop_simps fun_upd_twist small_size dec_size_t inc_size_t)

lemma example_result:
  "\<exists>w. run (fresh_lists 2) example_run = Some (Inr w)
       \<and> elements w 0 = Some (Inr []) \<and> elements w 1 = Some (Inr ''c'')"
  by (simp add: example_run_def numeral_2_eq_2 pointer_defs member_defs loop_simps fun_upd_twist
      small_size dec_size_t inc_size_t)

section \<open>The claims\<close>

subsection \<open>swap\<close>

text \<open>
  C1. The claim: for two different lists, either of which may be empty, \<open>swap\<close> exchanges
  the contents, and swapping twice restores both. The code returns at once when the
  \<^emph>\<open>argument\<close> is empty. With list 0 holding \<open>a, b, c\<close> and list 1 empty,
  \<^verbatim>\<open>swap(l0, l1)\<close> leaves the store as it was: list 0 still holds \<open>a, b, c\<close> and list 1
  is still empty. In the other direction \<^verbatim>\<open>swap(l1, l0)\<close> does exchange, and a second
  \<^verbatim>\<open>swap(l1, l0)\<close> then does nothing, so two swaps do not restore the lists.
\<close>

theorem swap_empty_argument_is_noop:
  "elements abc_and_empty 0 = Some (Inr ''abc'') \<and> elements abc_and_empty 1 = Some (Inr [])
   \<and> swap_free abc_and_empty 0 1 = Inr abc_and_empty
   \<and> (\<exists>w1. swap_free abc_and_empty 1 0 = Inr w1
         \<and> elements w1 1 = Some (Inr ''abc'') \<and> elements w1 0 = Some (Inr [])
         \<and> swap_free w1 1 0 = Inr w1)"
proof -
  have 1: "swap_free abc_and_empty 0 1 = Inr abc_and_empty"
    by (simp add: swap_free_def swap_def IsEmpty_def GetSize_def get_list_def abc_and_empty_def)
  define w1 where "w1 = abc_and_empty\<lparr>lists :=
      [0 \<mapsto> \<lparr>head_next_node = Nullptr, size_counter = 0\<rparr>,
       1 \<mapsto> \<lparr>head_next_node = NodeAt 0, size_counter = 3\<rparr>]\<rparr>"
  have 2: "swap_free abc_and_empty 1 0 = Inr w1"
    by (simp add: swap_free_def swap_def IsEmpty_def GetSize_def get_list_def abc_and_empty_def
        std_swap_size_def std_swap_head_def put_list_def w1_def fun_upd_twist)
  have 3: "swap_free w1 1 0 = Inr w1"
    by (simp add: swap_free_def swap_def IsEmpty_def GetSize_def get_list_def w1_def)
  have "is_list w1 1 [(0, CHR ''a''), (1, CHR ''b''), (2, CHR ''c'')]" "is_list w1 0 []"
    by (simp_all add: is_list_def w1_def abc_and_empty_def small_size)
  then have "elements w1 1 = Some (Inr ''abc'')" "elements w1 0 = Some (Inr [])"
    by (auto dest: is_list_observe(1))
  with 1 2 3 elements_abc elements_abc_empty show ?thesis by simp
qed

subsection \<open>Copy assignment\<close>

text \<open>
  C2. The claim: for two different lists, after \<open>L1 = L2\<close> the list \<open>L1\<close> has the elements
  of \<open>L2\<close>, also when \<open>L2\<close> is empty. The code copies \<open>L2\<close> into a temporary and
  swaps with it; the temporary made from an empty list is empty, so that swap does nothing.
  With list 0 holding \<open>a, b, c\<close> and list 1 empty, \<^verbatim>\<open>l0 = l1\<close> returns normally and list 0
  still holds \<open>a, b, c\<close>. When both lists are empty the assertion at the start of the
  operator fails, both links being null.
\<close>

theorem operator_assign_from_empty:
  "elements abc_and_empty 0 = Some (Inr ''abc'') \<and> elements abc_and_empty 1 = Some (Inr [])
   \<and> (\<exists>w'. operator_assign abc_and_empty 0 1 = Some (Inr w')
         \<and> elements w' 0 = Some (Inr ''abc'') \<and> elements w' 1 = Some (Inr []))
   \<and> operator_assign two_empty 0 1 = Some (Inl AssertionFailed)"
proof -
  define w' where "w' = abc_and_empty\<lparr>next_list := 3\<rparr>"
  have 1: "operator_assign abc_and_empty 0 1 = Some (Inr w')"
    by (simp add: operator_assign_def get_next_def SingleLinkedList_copy_def SingleLinkedList_default_def
        IsEmpty_def GetSize_def get_list_def swap_def destroy_def Clear_def abc_and_empty_def w'_def
        fun_upd_twist)
  have "is_list w' 0 [(0, CHR ''a''), (1, CHR ''b''), (2, CHR ''c'')]" "is_list w' 1 []"
    by (simp_all add: is_list_def w'_def abc_and_empty_def small_size)
  then have 2: "elements w' 0 = Some (Inr ''abc'')" "elements w' 1 = Some (Inr [])"
    by (auto dest: is_list_observe(1))
  have 3: "operator_assign two_empty 0 1 = Some (Inl AssertionFailed)"
    by (simp add: operator_assign_def get_next_def two_empty_def)
  from 1 2 3 elements_abc elements_abc_empty show ?thesis by simp
qed

subsection \<open>Self-assignment\<close>

text \<open>
  C3. The claim: self-assignment \<open>L = L\<close> is permitted, leaves \<open>L\<close> unchanged, and no
  assertion of the assignment operator fires. The code: the operator starts with
  \<^verbatim>\<open>assert(head_.next_node != rhs.head_.next_node)\<close>, which compares a link with itself
  when both sides are the same object. So for every list, self-assignment ends in the
  failed assertion, before the identity test \<^verbatim>\<open>this != &rhs\<close> is reached.
\<close>

theorem operator_assign_self_asserts:
  "lists w l = Some L \<Longrightarrow> operator_assign w l l = Some (Inl AssertionFailed)"
  by (simp add: operator_assign_def get_next_def)

theorem operator_assign_self_asserts_witness:
  "lists abc_and_empty 0 = Some \<lparr>head_next_node = NodeAt 0, size_counter = 3\<rparr>
   \<and> operator_assign abc_and_empty 0 0 = Some (Inl AssertionFailed)"
proof -
  have h: "lists abc_and_empty 0 = Some \<lparr>head_next_node = NodeAt 0, size_counter = 3\<rparr>"
    by (simp add: abc_and_empty_def)
  from h operator_assign_self_asserts [OF h] show ?thesis by simp
qed

subsection \<open>Construction from a sequence\<close>

text \<open>
  C4. The claim: constructing a list from any finite sequence, the empty one included, by
  the initializer-list or the copy constructor gives that sequence. The initializer-list
  constructor calls \<^verbatim>\<open>PushListTmp\<close> without testing for emptiness (the copy constructor
  does test), and \<^verbatim>\<open>PushListTmp\<close> starts by reading \<^verbatim>\<open>*p\<close> at \<^verbatim>\<open>values.begin()\<close>.
  For the empty sequence that is \<^verbatim>\<open>values.end()\<close>: in every store the construction
  from the empty sequence is a read past the end of the array.
\<close>

theorem SingleLinkedList_values_empty:
  "SingleLinkedList_values w [] = Some (Inl UndefinedBehaviour)"
  by (simp add: SingleLinkedList_values_def SingleLinkedList_default_def PushListTmp_def array_star_def)

subsection \<open>InsertAfter\<close>

text \<open>
  C6. For every well-formed list and every cursor at a valid position of it (the sentinel
  when \<open>pre\<close> is empty, the last node of \<open>pre\<close> otherwise), \<open>InsertAfter\<close> returns
  normally with an iterator to a new node that holds the value; the new node stands between
  the position and its former successor, and the size has grown by one. The new size is
  one that a \<^verbatim>\<open>size_t\<close> can hold.
\<close>

theorem InsertAfter_correct:
  "is_list w l (pre @ post) \<Longrightarrow> heap_ok w \<Longrightarrow> Suc (length (pre @ post)) < size_t_mod \<Longrightarrow>
     \<exists>w' a. InsertAfter w l (position l pre) v = Inr (w', NodeAt a)
        \<and> deref w' (NodeAt a) = Inr v
        \<and> is_list w' l (pre @ (a, v) # post)
        \<and> elements w' l = Some (Inr (map snd pre @ v # map snd post))
        \<and> GetSize w' l = Inr (Suc (length (pre @ post)))"
proof -
  assume a: "is_list w l (pre @ post)" "heap_ok w" "Suc (length (pre @ post)) < size_t_mod"
  from InsertAfter_step [OF a, of v] obtain w' where
    w': "InsertAfter w l (position l pre) v = Inr (w', NodeAt (next_free w))"
        "is_list w' l (pre @ (next_free w, v) # post)" by blast
  from w'(2) have obs: "elements w' l = Some (Inr (map snd (pre @ (next_free w, v) # post)))"
      "GetSize w' l = Inr (length (pre @ (next_free w, v) # post))"
    by (rule is_list_observe)+
  from w'(2) have "deref w' (NodeAt (next_free w)) = Inr v"
    by (auto elim!: is_listD simp: seg_append deref_def split: option.splits)
  with w' obs show ?thesis by auto
qed

theorem InsertAfter_correct_witness:
  "is_list ab_list 0 ([] @ [(0, CHR ''a''), (1, CHR ''b'')]) \<and> heap_ok ab_list
   \<and> Suc (length ([] @ [(0::nat, CHR ''a''), (1, CHR ''b'')])) < size_t_mod
   \<and> Suc (length ([(0::nat, CHR ''a'')] @ [(1, CHR ''b'')])) < size_t_mod
   \<and> (\<exists>w' it. InsertAfter ab_list 0 (before_begin 0) (CHR ''x'') = Inr (w', it)
         \<and> deref w' it = Inr (CHR ''x'') \<and> elements w' 0 = Some (Inr ''xab'') \<and> GetSize w' 0 = Inr 3)
   \<and> is_list ab_list 0 ([(0, CHR ''a'')] @ [(1, CHR ''b'')])
   \<and> (\<exists>w' it. InsertAfter ab_list 0 (NodeAt 0) (CHR ''x'') = Inr (w', it)
         \<and> deref w' it = Inr (CHR ''x'') \<and> elements w' 0 = Some (Inr ''axb'') \<and> GetSize w' 0 = Inr 3)"
proof -
  have 1: "is_list ab_list 0 ([] @ [(0, CHR ''a''), (1, CHR ''b'')])" using is_list_ab by simp
  have 2: "is_list ab_list 0 ([(0, CHR ''a'')] @ [(1, CHR ''b'')])" using is_list_ab by simp
  have 3: "Suc (length ([] @ [(0::nat, CHR ''a''), (1, CHR ''b'')])) < size_t_mod"
    and 4: "Suc (length ([(0::nat, CHR ''a'')] @ [(1, CHR ''b'')])) < size_t_mod"
    by (simp_all add: small_size)
  from InsertAfter_correct [OF 1 heap_ok_ab 3, of "CHR ''x''"]
    InsertAfter_correct [OF 2 heap_ok_ab 4, of "CHR ''x''"] 1 2 3 4 heap_ok_ab
  show ?thesis by (simp add: position_def numeral_3_eq_3) blast
qed

subsection \<open>EraseAfter\<close>

text \<open>
  C7. For every well-formed list and every cursor at a position that has a successor \<open>d\<close>,
  \<open>EraseAfter\<close> removes \<open>d\<close>, links the position to the node after it, decrements the
  size and returns an iterator to that node, or the terminal iterator when there is none.
  On an empty list it changes nothing and returns the terminal iterator, whatever the cursor.
\<close>

theorem EraseAfter_correct:
  "(is_list w l (pre @ d # post) \<longrightarrow>
      (\<exists>w'. EraseAfter w l (position l pre) = Inr (w', first_of post)
          \<and> is_list w' l (pre @ post) \<and> nodes w' (fst d) = None
          \<and> elements w' l = Some (Inr (map snd pre @ map snd post))
          \<and> GetSize w' l = Inr (length (pre @ d # post) - 1)))
   \<and> (is_list w l [] \<longrightarrow> EraseAfter w l pos = Inr (w, list_end))"
proof (intro conjI impI)
  assume a: "is_list w l (pre @ d # post)"
  from EraseAfter_step [OF a] obtain w' where
    w': "EraseAfter w l (position l pre) = Inr (w', first_of post)" "is_list w' l (pre @ post)"
        "dom (nodes w') = dom (nodes w) - {fst d}" by blast
  from w'(2) have obs: "elements w' l = Some (Inr (map snd (pre @ post)))"
      "GetSize w' l = Inr (length (pre @ post))"
    by (rule is_list_observe)+
  from w'(3) have "nodes w' (fst d) = None" by blast
  with w' obs
  show "\<exists>w'. EraseAfter w l (position l pre) = Inr (w', first_of post)
          \<and> is_list w' l (pre @ post) \<and> nodes w' (fst d) = None
          \<and> elements w' l = Some (Inr (map snd pre @ map snd post))
          \<and> GetSize w' l = Inr (length (pre @ d # post) - 1)"
    by auto
next
  assume "is_list w l []"
  then show "EraseAfter w l pos = Inr (w, list_end)"
    by (simp add: EraseAfter_empty list_end_def)
qed

theorem EraseAfter_correct_witness:
  "is_list abc_and_empty 0 ([] @ (0, CHR ''a'') # [(1, CHR ''b''), (2, CHR ''c'')])
   \<and> (\<exists>w'. EraseAfter abc_and_empty 0 (before_begin 0) = Inr (w', NodeAt 1)
         \<and> elements w' 0 = Some (Inr ''bc'') \<and> GetSize w' 0 = Inr 2)
   \<and> is_list abc_and_empty 0 ([(0, CHR ''a''), (1, CHR ''b'')] @ (2, CHR ''c'') # [])
   \<and> (\<exists>w'. EraseAfter abc_and_empty 0 (NodeAt 1) = Inr (w', list_end)
         \<and> elements w' 0 = Some (Inr ''ab'') \<and> GetSize w' 0 = Inr 2)
   \<and> is_list abc_and_empty 1 []
   \<and> EraseAfter abc_and_empty 1 (before_begin 1) = Inr (abc_and_empty, list_end)"
proof -
  have 1: "is_list abc_and_empty 0 ([] @ (0, CHR ''a'') # [(1, CHR ''b''), (2, CHR ''c'')])"
    using is_list_abc by simp
  have 2: "is_list abc_and_empty 0 ([(0, CHR ''a''), (1, CHR ''b'')] @ (2, CHR ''c'') # [])"
    using is_list_abc by simp
  from EraseAfter_correct [of abc_and_empty 0 "[]" "(0, CHR ''a'')" "[(1, CHR ''b''), (2, CHR ''c'')]"]
    EraseAfter_correct [of abc_and_empty 0 "[(0, CHR ''a''), (1, CHR ''b'')]" "(2, CHR ''c'')" "[]"]
    EraseAfter_correct [of abc_and_empty 1 "[]" "(0, CHR ''a'')" "[]" "before_begin 1"]
    1 2 is_list_abc_empty
  show ?thesis by (simp add: position_def first_of_def numeral_2_eq_2) blast
qed

subsection \<open>PopFront\<close>

text \<open>
  C8. \<open>PopFront\<close> on an empty list returns normally and changes nothing; on a non-empty
  list it removes the first node and decrements the size.
\<close>

theorem PopFront_correct:
  "is_list w l cs \<Longrightarrow>
     (cs = [] \<longrightarrow> PopFront w l = Inr w) \<and>
     (\<forall>c rest. cs = c # rest \<longrightarrow>
        (\<exists>w'. PopFront w l = Inr w' \<and> is_list w' l rest \<and> nodes w' (fst c) = None
            \<and> elements w' l = Some (Inr (map snd rest))
            \<and> GetSize w' l = Inr (length cs - 1)))"
proof (intro conjI allI impI)
  assume "is_list w l cs" "cs = []"
  then show "PopFront w l = Inr w" by (simp add: PopFront_empty)
next
  fix c rest
  assume "is_list w l cs" "cs = c # rest"
  then have "is_list w l (c # rest)" by simp
  from PopFront_step [OF this] obtain w' where w': "PopFront w l = Inr w'" "is_list w' l rest"
    "nodes w' = (nodes w)(fst c := None)" by blast
  from w'(2) have "elements w' l = Some (Inr (map snd rest))" "GetSize w' l = Inr (length rest)"
    by (rule is_list_observe)+
  with w' \<open>cs = c # rest\<close>
  show "\<exists>w'. PopFront w l = Inr w' \<and> is_list w' l rest \<and> nodes w' (fst c) = None
            \<and> elements w' l = Some (Inr (map snd rest)) \<and> GetSize w' l = Inr (length cs - 1)"
    by simp
qed

theorem PopFront_correct_witness:
  "is_list abc_and_empty 0 [(0, CHR ''a''), (1, CHR ''b''), (2, CHR ''c'')]
   \<and> (\<exists>w'. PopFront abc_and_empty 0 = Inr w' \<and> elements w' 0 = Some (Inr ''bc'') \<and> GetSize w' 0 = Inr 2)
   \<and> is_list abc_and_empty 1 []
   \<and> elements abc_and_empty 1 = Some (Inr [])
   \<and> PopFront abc_and_empty 1 = Inr abc_and_empty"
  using PopFront_correct [OF is_list_abc] PopFront_correct [OF is_list_abc_empty]
    is_list_abc is_list_abc_empty is_list_observe(1) [OF is_list_abc_empty]
  by auto

subsection \<open>SetSize\<close>

text \<open>
  C10. For a value \<open>n\<close> of \<^verbatim>\<open>size_t\<close>, \<open>SetSize\<close> stores \<open>n\<close> in the size counter and
  leaves every node and the sentinel's link as they were, so iterating the list gives the
  same elements as before.
  Hence there is a well-formed list on which a call of \<open>SetSize\<close> makes the size differ
  from the number of elements that iteration reaches.
\<close>

theorem SetSize_ignores_chain:
  "(lists w l = Some L \<longrightarrow> n < size_t_mod \<longrightarrow>
      (\<exists>w'. SetSize w l n = Inr w' \<and> GetSize w' l = Inr n \<and> nodes w' = nodes w
          \<and> list_begin w' l = list_begin w l
          \<and> (\<forall>cs. is_list w l cs \<longrightarrow> elements w' l = Some (Inr (map snd cs)))))
   \<and> (\<exists>w0 w1 xs. SetSize w0 0 1 = Inr w1 \<and> elements w1 0 = Some (Inr xs)
          \<and> GetSize w1 0 \<noteq> Inr (length xs) \<and> is_list (w0 :: 'a world) 0 [])"
proof (intro conjI impI)
  assume L: "lists w l = Some L" and n: "n < size_t_mod"
  define w' where "w' = put_list w l (L\<lparr>size_counter := n\<rparr>)"
  have run: "SetSize w l n = Inr w'"
    using L n by (simp add: SetSize_def get_list_def to_size_t_small w'_def)
  have "\<forall>cs. is_list w l cs \<longrightarrow> elements w' l = Some (Inr (map snd cs))"
  proof (intro allI impI)
    fix cs assume "is_list w l cs"
    with L have "seg w (head_next_node L) cs Nullptr" by (simp add: is_list_def)
    then have "seg w' (head_next_node L) cs Nullptr"
      by (subst seg_frame [of cs w' w]) (simp_all add: w'_def put_list_def)
    from \<open>seg w' (head_next_node L) cs Nullptr\<close> collect_seg [of w' "head_next_node L" cs "[]"]
    show "elements w' l = Some (Inr (map snd cs))"
      by (simp add: elements_def list_begin_def get_list_def w'_def put_list_def)
  qed
  with run L show "\<exists>w'. SetSize w l n = Inr w' \<and> GetSize w' l = Inr n \<and> nodes w' = nodes w
          \<and> list_begin w' l = list_begin w l
          \<and> (\<forall>cs. is_list w l cs \<longrightarrow> elements w' l = Some (Inr (map snd cs)))"
    by (simp add: w'_def put_list_def GetSize_def get_list_def list_begin_def)
next
  define w0 :: "'a world" where "w0 = fst (SingleLinkedList_default
      \<lparr>nodes = Map.empty, next_free = 0, lists = Map.empty, next_list = 0\<rparr>)"
  have "SetSize w0 0 1 = Inr (put_list w0 0 \<lparr>head_next_node = Nullptr, size_counter = 1\<rparr>)"
    by (simp add: w0_def SetSize_def get_list_def SingleLinkedList_default_def to_size_t_small small_size)
  moreover have "elements (put_list w0 0 \<lparr>head_next_node = Nullptr, size_counter = 1\<rparr>) 0 = Some (Inr [])"
    by (simp add: elements_def list_begin_def get_list_def put_list_def collect.simps
        iterator_neq_def iterator_eq_def list_end_def)
  moreover have "GetSize (put_list w0 0 \<lparr>head_next_node = Nullptr, size_counter = 1\<rparr>) 0 = Inr 1"
    by (simp add: GetSize_def get_list_def put_list_def)
  moreover have "is_list w0 0 []"
    by (simp add: w0_def is_list_def SingleLinkedList_default_def)
  ultimately show "\<exists>w0 w1 xs. SetSize w0 0 1 = Inr w1 \<and> elements w1 0 = Some (Inr xs)
          \<and> GetSize w1 0 \<noteq> Inr (length xs) \<and> is_list (w0 :: 'a world) 0 []"
    by (intro exI [of _ w0] exI [of _ "put_list w0 0 \<lparr>head_next_node = Nullptr, size_counter = 1\<rparr>"]
        exI [of _ "[]"]) simp
qed

theorem SetSize_ignores_chain_witness:
  "lists abc_and_empty 0 = Some \<lparr>head_next_node = NodeAt 0, size_counter = 3\<rparr> \<and> 7 < size_t_mod
   \<and> is_list abc_and_empty 0 [(0, CHR ''a''), (1, CHR ''b''), (2, CHR ''c'')]
   \<and> (\<exists>w'. SetSize abc_and_empty 0 7 = Inr w' \<and> GetSize w' 0 = Inr 7
         \<and> elements w' 0 = Some (Inr ''abc''))"
proof -
  have h: "lists abc_and_empty 0 = Some \<lparr>head_next_node = NodeAt 0, size_counter = 3\<rparr>"
    by (simp add: abc_and_empty_def)
  have n: "7 < size_t_mod" by (simp add: small_size)
  from SetSize_ignores_chain [of abc_and_empty 0 "\<lparr>head_next_node = NodeAt 0, size_counter = 3\<rparr>" 7]
    h n is_list_abc
  show ?thesis by auto
qed

subsection \<open>Equality of lists\<close>

text \<open>
  C9. \<open>operator_eq\<close> answers true at once when the two \<^verbatim>\<open>begin()\<close> iterators are the same
  pointer: nothing is assumed about the chains, none is walked. Otherwise, for chains that end
  at the null pointer, it answers whether the size counters agree and the elements are equal
  one by one, in order. \<open>operator_neq\<close> is its negation.
\<close>

theorem operator_eq_correct:
  "lists w a = Some A \<Longrightarrow> lists w b = Some B \<Longrightarrow>
     (head_next_node A = head_next_node B \<longrightarrow> operator_eq w a b = Some (Inr True))
     \<and> (head_next_node A \<noteq> head_next_node B \<longrightarrow>
          seg w (head_next_node A) as Nullptr \<longrightarrow> seg w (head_next_node B) bs Nullptr \<longrightarrow>
          operator_eq w a b = Some (Inr (size_counter A = size_counter B \<and> map snd as = map snd bs)))
     \<and> (\<forall>r. operator_eq w a b = Some (Inr r) \<longrightarrow> operator_neq w a b = Some (Inr (\<not> r)))"
proof (intro conjI impI allI)
  assume "lists w a = Some A" "lists w b = Some B" "head_next_node A = head_next_node B"
  then show "operator_eq w a b = Some (Inr True)"
    by (simp add: operator_eq_def list_begin_def get_list_def iterator_eq_def)
next
  assume "lists w a = Some A" "lists w b = Some B" "head_next_node A \<noteq> head_next_node B"
    "seg w (head_next_node A) as Nullptr" "seg w (head_next_node B) bs Nullptr"
  then show "operator_eq w a b = Some (Inr (size_counter A = size_counter B \<and> map snd as = map snd bs))"
    using std_equal_seg [of w "head_next_node A" as "head_next_node B" bs]
    by (auto simp: operator_eq_def list_begin_def get_list_def iterator_eq_def GetSize_def)
next
  fix r assume "operator_eq w a b = Some (Inr r)"
  then show "operator_neq w a b = Some (Inr (\<not> r))" by (simp add: operator_neq_def)
qed

theorem operator_eq_correct_witness:
  "lists ab_and_ab 0 = Some \<lparr>head_next_node = NodeAt 0, size_counter = 2\<rparr>
   \<and> lists ab_and_ab 1 = Some \<lparr>head_next_node = NodeAt 2, size_counter = 2\<rparr>
   \<and> seg ab_and_ab (NodeAt 0) [(0, CHR ''a''), (1, CHR ''b'')] Nullptr
   \<and> seg ab_and_ab (NodeAt 2) [(2, CHR ''a''), (3, CHR ''b'')] Nullptr
   \<and> operator_eq ab_and_ab 0 1 = Some (Inr True)
   \<and> operator_neq ab_and_ab 0 1 = Some (Inr False)
   \<and> operator_eq ab_and_ab 0 0 = Some (Inr True)"
proof -
  let ?A = "\<lparr>head_next_node = NodeAt 0, size_counter = 2\<rparr>"
  let ?B = "\<lparr>head_next_node = NodeAt 2, size_counter = 2\<rparr>"
  have a: "lists ab_and_ab 0 = Some ?A" and b: "lists ab_and_ab 1 = Some ?B"
    by (simp_all add: ab_and_ab_def)
  have sa: "seg ab_and_ab (NodeAt 0) [(0, CHR ''a''), (1, CHR ''b'')] Nullptr"
    and sb: "seg ab_and_ab (NodeAt 2) [(2, CHR ''a''), (3, CHR ''b'')] Nullptr"
    by (simp_all add: ab_and_ab_def)
  from operator_eq_correct [OF a b, of "[(0, CHR ''a''), (1, CHR ''b'')]" "[(2, CHR ''a''), (3, CHR ''b'')]"]
    operator_eq_correct [OF a a, of "[]" "[]"] a b sa sb
  show ?thesis by simp
qed

subsection \<open>The size counter and iteration\<close>

text \<open>
  C5. Start from any number of empty lists and perform any sequence of \<open>PushFront\<close>,
  \<open>InsertAfter\<close>, \<open>PopFront\<close>, \<open>EraseAfter\<close>, \<open>Clear\<close> and \<open>swap\<close> calls, each
  called within its precondition. Then every call returns normally, and afterwards, for
  each of the lists, iterating from \<^verbatim>\<open>begin()\<close> to \<^verbatim>\<open>end()\<close> ends and reaches exactly
  \<open>GetSize\<close> elements; \<open>IsEmpty\<close> holds iff the size is 0 iff \<^verbatim>\<open>begin() == end()\<close>.
  The sequence has fewer than \<open>2 ^ 64\<close> calls: no list then comes near the number of nodes
  at which a \<^verbatim>\<open>size_t\<close> would wrap around, a number of nodes that no 64-bit memory holds.
\<close>

theorem size_is_number_of_elements:
  "permitted_run (fresh_lists n) (xs :: 'a operation list) \<Longrightarrow> length xs < size_t_mod \<Longrightarrow> l < n \<Longrightarrow>
     \<exists>w es b. run (fresh_lists n) xs = Some (Inr w)
        \<and> elements w l = Some (Inr es) \<and> GetSize w l = Inr (length es)
        \<and> IsEmpty w l = Inr (length es = 0)
        \<and> list_begin w l = Inr b \<and> (iterator_eq b list_end \<longleftrightarrow> length es = 0)"
proof -
  assume p: "permitted_run (fresh_lists n) xs" and short: "length xs < size_t_mod" and l: "l < n"
  from short have "next_free (fresh_lists n :: 'a world) + length xs < size_t_mod"
    by (simp add: fresh_lists_fields)
  from run_ok [OF fresh_lists_ok p this] obtain w cs where
    w: "run (fresh_lists n) xs = Some (Inr w)" "world_ok w cs"
    "\<forall>k. lists w k = None \<longleftrightarrow> lists (fresh_lists n :: 'a world) k = None" by blast
  from w(3) l have "lists w l \<noteq> None" by (simp add: fresh_lists_fields)
  from world_okD(2) [OF w(2) this] have il: "is_list w l (cs l)" .
  from il obtain L where L: "lists w l = Some L" "seg w (head_next_node L) (cs l) Nullptr"
    by (rule is_listD)
  from L(2) have "head_next_node L = first_of (cs l)" by (rule seg_first_of)
  then have "iterator_eq (head_next_node L) list_end \<longleftrightarrow> cs l = []"
    by (cases "cs l") (auto simp: first_of_def iterator_eq_def list_end_def)
  moreover from L(1) have "list_begin w l = Inr (head_next_node L)"
    by (simp add: list_begin_def get_list_def)
  ultimately show ?thesis
    using w(1) is_list_observe(1-3) [OF il] by auto
qed

theorem size_is_number_of_elements_witness:
  "permitted_run (fresh_lists 2) example_run \<and> length example_run < size_t_mod
   \<and> (0::nat) < 2 \<and> (1::nat) < 2
   \<and> (\<exists>w. run (fresh_lists 2) example_run = Some (Inr w)
         \<and> elements w 0 = Some (Inr []) \<and> GetSize w 0 = Inr 0 \<and> IsEmpty w 0 = Inr True
         \<and> list_begin w 0 = Inr list_end
         \<and> elements w 1 = Some (Inr ''c'') \<and> GetSize w 1 = Inr 1 \<and> IsEmpty w 1 = Inr False
         \<and> list_begin w 1 \<noteq> Inr list_end)"
proof -
  have l0: "(0::nat) < 2" and l1: "(1::nat) < 2" by simp_all
  have short: "length example_run < size_t_mod" by (simp add: example_run_def small_size)
  from example_result obtain w where w: "run (fresh_lists 2) example_run = Some (Inr w)"
    "elements w 0 = Some (Inr [])" "elements w 1 = Some (Inr ''c'')" by blast
  from size_is_number_of_elements [OF example_permitted short l0] w(1,2)
  have 0: "GetSize w 0 = Inr 0" "IsEmpty w 0 = Inr True" "list_begin w 0 = Inr list_end"
    by (auto simp: iterator_eq_def)
  from size_is_number_of_elements [OF example_permitted short l1] w(1,3)
  have 1: "GetSize w 1 = Inr 1" "IsEmpty w 1 = Inr False" "list_begin w 1 \<noteq> Inr list_end"
    by (auto simp: iterator_eq_def)
  from example_permitted short l0 l1 w 0 1 show ?thesis by blast
qed

end
